theory Spec2Isabelle
  imports Main "HOL-Library.Sublist"
begin

section \<open>OrderedRelay (Problem2.py)\<close>

text \<open>
  Three threads \<open>process1\<close>, \<open>process2\<close>, \<open>process3\<close> share the semaphores \<open>a\<close>, \<open>b\<close>,
  \<open>c\<close> (the fields \<open>sem_a\<close>, \<open>sem_b\<close>, \<open>sem_c\<close> hold their counters). Every statement of a loop
  body is one atomic step of its thread; a thread whose \<open>acquire\<close> finds the counter at 0
  has no step (it is blocked). \<open>print\<close> appends to \<open>out\<close> the number of the printing
  process and the text printed.
\<close>

datatype pc12 = Wait | Say1 | Say2 | Signal

datatype pc3 = Wait3 | Say3

record relay =
  sem_a :: nat
  sem_b :: nat
  sem_c :: nat
  at1 :: pc12
  at2 :: pc12
  at3 :: pc3
  out :: "(nat \<times> string) list"

definition relay_init :: relay where
  "relay_init = \<lparr>sem_a = 1, sem_b = 0, sem_c = 0, at1 = Wait, at2 = Wait, at3 = Wait3, out = []\<rparr>"

definition process1 :: "relay \<Rightarrow> relay option" where
  "process1 s =
     (case at1 s of
        Wait \<Rightarrow> if sem_a s = 0 then None else Some (s\<lparr>sem_a := sem_a s - 1, at1 := Say1\<rparr>)
      | Say1 \<Rightarrow> Some (s\<lparr>out := out s @ [(1, ''H'')], at1 := Say2\<rparr>)
      | Say2 \<Rightarrow> Some (s\<lparr>out := out s @ [(1, ''E'')], at1 := Signal\<rparr>)
      | Signal \<Rightarrow> Some (s\<lparr>sem_b := sem_b s + 1, at1 := Wait\<rparr>))"

definition process2 :: "relay \<Rightarrow> relay option" where
  "process2 s =
     (case at2 s of
        Wait \<Rightarrow> if sem_b s = 0 then None else Some (s\<lparr>sem_b := sem_b s - 1, at2 := Say1\<rparr>)
      | Say1 \<Rightarrow> Some (s\<lparr>out := out s @ [(2, ''L'')], at2 := Say2\<rparr>)
      | Say2 \<Rightarrow> Some (s\<lparr>out := out s @ [(2, ''L'')], at2 := Signal\<rparr>)
      | Signal \<Rightarrow> Some (s\<lparr>sem_c := sem_c s + 1, at2 := Wait\<rparr>))"

text \<open>The body of \<open>process3\<close> ends with its \<open>print\<close>: it releases no semaphore.\<close>

definition process3 :: "relay \<Rightarrow> relay option" where
  "process3 s =
     (case at3 s of
        Wait3 \<Rightarrow> if sem_c s = 0 then None else Some (s\<lparr>sem_c := sem_c s - 1, at3 := Say3\<rparr>)
      | Say3 \<Rightarrow> Some (s\<lparr>out := out s @ [(3, ''O'')], at3 := Wait3\<rparr>))"

text \<open>The scheduler picks any thread that has a step.\<close>

definition relay_succs :: "relay \<Rightarrow> relay list" where
  "relay_succs s = List.map_filter (\<lambda>p. p s) [process1, process2, process3]"

inductive_set relay_reach :: "relay set" where
  relay_start: "relay_init \<in> relay_reach"
| relay_step: "s \<in> relay_reach \<Longrightarrow> s' \<in> set (relay_succs s) \<Longrightarrow> s' \<in> relay_reach"

text \<open>Running the relay for at most \<open>n\<close> steps, taking the first enabled thread each time.\<close>

fun relay_run :: "nat \<Rightarrow> relay \<Rightarrow> relay list" where
  "relay_run 0 s = [s]"
| "relay_run (Suc n) s = s # (case relay_succs s of [] \<Rightarrow> [] | s' # _ \<Rightarrow> relay_run n s')"

text \<open>
  One pass of a thread through its loop body: its own steps, from the head of the loop
  until it is back there (\<open>n\<close> bounds the number of steps).
\<close>

fun pass :: "nat \<Rightarrow> (relay \<Rightarrow> relay option) \<Rightarrow> (relay \<Rightarrow> bool) \<Rightarrow> relay \<Rightarrow> relay option" where
  "pass 0 p home s = None"
| "pass (Suc n) p home s =
     (case p s of None \<Rightarrow> None | Some s' \<Rightarrow> if home s' then Some s' else pass n p home s')"

definition cycle1 :: "relay \<Rightarrow> relay option" where
  "cycle1 s = pass 4 process1 (\<lambda>s. at1 s = Wait) s"

definition cycle2 :: "relay \<Rightarrow> relay option" where
  "cycle2 s = pass 4 process2 (\<lambda>s. at2 s = Wait) s"

definition cycle3 :: "relay \<Rightarrow> relay option" where
  "cycle3 s = pass 4 process3 (\<lambda>s. at3 s = Wait3) s"

definition hello :: "string list" where
  "hello = [''H'', ''E'', ''L'', ''L'', ''O'']"

section \<open>BoundedPairBuffer (Problem1.py)\<close>

text \<open>
  The module-level state: the list \<open>buffer\<close>, the counting semaphores \<open>space\<close> (free
  slots, starting at \<open>BUFFER_SIZE\<close>) and \<open>full\<close> (filled slots, starting at 0), and the
  semaphore \<open>lock\<close> used as the buffer's mutex. Each worker thread is the name of its
  function, its argument and the statement it executes next; every statement is one atomic
  step, \<open>acquire\<close> on a counter at 0 has no step, and \<open>print\<close> appends to \<open>printed\<close>.
\<close>

definition BUFFER_SIZE :: nat where
  "BUFFER_SIZE = 100"

definition digit :: "nat \<Rightarrow> char" where
  "digit n = ''0123456789'' ! n"

fun str_nat :: "nat \<Rightarrow> string" where
  "str_nat n = (if n < 10 then [digit n] else str_nat (n div 10) @ [digit (n mod 10)])"

declare str_nat.simps [simp del]

text \<open>The locals \<open>P1\<close> and \<open>P2\<close> of \<open>producer(pid)\<close>: \<open>f"P{pid}-A"\<close> and \<open>f"P{pid}-B"\<close>.\<close>

definition item_A :: "nat \<Rightarrow> string" where
  "item_A pid = ''P'' @ str_nat pid @ ''-A''"

definition item_B :: "nat \<Rightarrow> string" where
  "item_B pid = ''P'' @ str_nat pid @ ''-B''"

datatype ppc =
  P_space1 | P_space2 | P_lock | P_append1 | P_append2 | P_print | P_unlock
  | P_full1 | P_full2 | P_sleep

text \<open>
  The consumer's locals \<open>P1\<close> and \<open>P2\<close> exist once they are assigned: \<open>C_pop2 x\<close> holds
  \<open>P1 = x\<close>, \<open>C_print x y\<close> holds \<open>P1 = x\<close> and \<open>P2 = y\<close>. \<open>C_raised\<close> is the thread ended
  by the \<open>IndexError\<close> of \<open>pop(0)\<close> on an empty list.
\<close>

datatype cpc =
  C_full1 | C_full2 | C_lock | C_pop1 | C_pop2 string | C_print string string | C_unlock
  | C_space1 | C_space2 | C_sleep | C_raised

datatype worker = Producer nat ppc | Consumer nat cpc

datatype report = Produced nat string string nat | Consumed nat string string nat

record pool =
  buffer :: "string list"
  space :: nat
  full :: nat
  lock :: nat
  workers :: "worker list"
  printed :: "report list"

definition producer :: "nat \<Rightarrow> ppc \<Rightarrow> pool \<Rightarrow> (ppc \<times> pool) option" where
  "producer pid pc s =
     (case pc of
        P_space1 \<Rightarrow> if space s = 0 then None else Some (P_space2, s\<lparr>space := space s - 1\<rparr>)
      | P_space2 \<Rightarrow> if space s = 0 then None else Some (P_lock, s\<lparr>space := space s - 1\<rparr>)
      | P_lock \<Rightarrow> if lock s = 0 then None else Some (P_append1, s\<lparr>lock := lock s - 1\<rparr>)
      | P_append1 \<Rightarrow> Some (P_append2, s\<lparr>buffer := buffer s @ [item_A pid]\<rparr>)
      | P_append2 \<Rightarrow> Some (P_print, s\<lparr>buffer := buffer s @ [item_B pid]\<rparr>)
      | P_print \<Rightarrow>
          Some (P_unlock,
            s\<lparr>printed := printed s @ [Produced pid (item_A pid) (item_B pid) (length (buffer s))]\<rparr>)
      | P_unlock \<Rightarrow> Some (P_full1, s\<lparr>lock := lock s + 1\<rparr>)
      | P_full1 \<Rightarrow> Some (P_full2, s\<lparr>full := full s + 1\<rparr>)
      | P_full2 \<Rightarrow> Some (P_sleep, s\<lparr>full := full s + 1\<rparr>)
      | P_sleep \<Rightarrow> Some (P_space1, s))"

definition consumer :: "nat \<Rightarrow> cpc \<Rightarrow> pool \<Rightarrow> (cpc \<times> pool) option" where
  "consumer cid pc s =
     (case pc of
        C_full1 \<Rightarrow> if full s = 0 then None else Some (C_full2, s\<lparr>full := full s - 1\<rparr>)
      | C_full2 \<Rightarrow> if full s = 0 then None else Some (C_lock, s\<lparr>full := full s - 1\<rparr>)
      | C_lock \<Rightarrow> if lock s = 0 then None else Some (C_pop1, s\<lparr>lock := lock s - 1\<rparr>)
      | C_pop1 \<Rightarrow>
          (case buffer s of [] \<Rightarrow> Some (C_raised, s)
           | x # rest \<Rightarrow> Some (C_pop2 x, s\<lparr>buffer := rest\<rparr>))
      | C_pop2 x \<Rightarrow>
          (case buffer s of [] \<Rightarrow> Some (C_raised, s)
           | y # rest \<Rightarrow> Some (C_print x y, s\<lparr>buffer := rest\<rparr>))
      | C_print x y \<Rightarrow>
          Some (C_unlock, s\<lparr>printed := printed s @ [Consumed cid x y (length (buffer s))]\<rparr>)
      | C_unlock \<Rightarrow> Some (C_space1, s\<lparr>lock := lock s + 1\<rparr>)
      | C_space1 \<Rightarrow> Some (C_space2, s\<lparr>space := space s + 1\<rparr>)
      | C_space2 \<Rightarrow> Some (C_sleep, s\<lparr>space := space s + 1\<rparr>)
      | C_sleep \<Rightarrow> Some (C_full1, s)
      | C_raised \<Rightarrow> None)"

text \<open>One step of the \<open>i\<close>-th thread.\<close>

definition pool_step :: "nat \<Rightarrow> pool \<Rightarrow> pool option" where
  "pool_step i s =
     (if i < length (workers s) then
        (case workers s ! i of
           Producer pid pc \<Rightarrow>
             (case producer pid pc s of None \<Rightarrow> None
              | Some (pc', s') \<Rightarrow> Some (s'\<lparr>workers := (workers s)[i := Producer pid pc']\<rparr>))
         | Consumer cid pc \<Rightarrow>
             (case consumer cid pc s of None \<Rightarrow> None
              | Some (pc', s') \<Rightarrow> Some (s'\<lparr>workers := (workers s)[i := Consumer cid pc']\<rparr>)))
      else None)"

text \<open>Three producers, \<open>producer(0)\<close>, \<open>producer(1)\<close>, \<open>producer(2)\<close>, and \<open>consumer(0)\<close>.\<close>

definition pool_init :: pool where
  "pool_init =
     \<lparr>buffer = [], space = BUFFER_SIZE, full = 0, lock = 1,
      workers = map (\<lambda>i. Producer i P_space1) [0 ..< 3] @ [Consumer 0 C_full1],
      printed = []\<rparr>"

inductive_set pool_reach :: "pool set" where
  pool_start: "pool_init \<in> pool_reach"
| pool_next: "s \<in> pool_reach \<Longrightarrow> pool_step i s = Some s' \<Longrightarrow> s' \<in> pool_reach"

text \<open>A schedule is the list of the threads that step, in order.\<close>

fun pool_run :: "nat list \<Rightarrow> pool \<Rightarrow> pool option" where
  "pool_run [] s = Some s"
| "pool_run (i # sched) s = (case pool_step i s of None \<Rightarrow> None | Some s' \<Rightarrow> pool_run sched s')"

text \<open>
  What a thread holds at each point of its loop body: \<open>space_held\<close> counts the slots it
  took from \<open>space\<close> and has not filled yet, or emptied and has not given back yet;
  \<open>full_held\<close> counts the buffer elements it appended and has not announced in \<open>full\<close>
  yet, or claimed from \<open>full\<close> and has not removed yet; \<open>holds_lock\<close> is 1 between its
  \<open>lock.acquire()\<close> and its \<open>lock.release()\<close>.
\<close>

fun space_held :: "worker \<Rightarrow> nat" where
  "space_held (Producer pid P_space2) = 1"
| "space_held (Producer pid P_lock) = 2"
| "space_held (Producer pid P_append1) = 2"
| "space_held (Producer pid P_append2) = 1"
| "space_held (Consumer cid (C_pop2 x)) = 1"
| "space_held (Consumer cid (C_print x y)) = 2"
| "space_held (Consumer cid C_unlock) = 2"
| "space_held (Consumer cid C_space1) = 2"
| "space_held (Consumer cid C_space2) = 1"
| "space_held w = 0"

fun full_held :: "worker \<Rightarrow> nat" where
  "full_held (Producer pid P_append2) = 1"
| "full_held (Producer pid P_print) = 2"
| "full_held (Producer pid P_unlock) = 2"
| "full_held (Producer pid P_full1) = 2"
| "full_held (Producer pid P_full2) = 1"
| "full_held (Consumer cid C_full2) = 1"
| "full_held (Consumer cid C_lock) = 2"
| "full_held (Consumer cid C_pop1) = 2"
| "full_held (Consumer cid (C_pop2 x)) = 1"
| "full_held w = 0"

fun holds_lock :: "worker \<Rightarrow> nat" where
  "holds_lock (Producer pid P_append1) = 1"
| "holds_lock (Producer pid P_append2) = 1"
| "holds_lock (Producer pid P_print) = 1"
| "holds_lock (Producer pid P_unlock) = 1"
| "holds_lock (Consumer cid C_pop1) = 1"
| "holds_lock (Consumer cid (C_pop2 x)) = 1"
| "holds_lock (Consumer cid (C_print x y)) = 1"
| "holds_lock (Consumer cid C_unlock) = 1"
| "holds_lock (Consumer cid C_raised) = 1"
| "holds_lock w = 0"

definition total :: "(worker \<Rightarrow> nat) \<Rightarrow> pool \<Rightarrow> nat" where
  "total f s = sum_list (map f (workers s))"

definition counts_ok :: "pool \<Rightarrow> bool" where
  "counts_ok s \<longleftrightarrow>
     space s + total space_held s + length (buffer s) = BUFFER_SIZE \<and>
     full s + total full_held s = length (buffer s) \<and>
     lock s + total holds_lock s = 1"

text \<open>
  The shape of the buffer. \<open>is_pair x y\<close>: \<open>x\<close> and \<open>y\<close> are the two elements that one of
  the three producers appends. \<open>paired\<close>: a list made of such pairs. \<open>popped\<close> is the
  element a consumer has removed without its partner, \<open>owed\<close> the partner a producer has
  still to append, \<open>put\<close> what a producer has appended since it took the lock.
  \<open>taken_ok\<close>: the two elements a consumer has removed are a pair, and the consumer has
  not raised. \<open>wid\<close> is the function and argument of a thread.
\<close>

definition is_pair :: "string \<Rightarrow> string \<Rightarrow> bool" where
  "is_pair x y \<longleftrightarrow> (\<exists>pid < 3. x = item_A pid \<and> y = item_B pid)"

fun paired :: "string list \<Rightarrow> bool" where
  "paired [] = True"
| "paired [x] = False"
| "paired (x # y # rest) = (is_pair x y \<and> paired rest)"

fun popped :: "worker \<Rightarrow> string list" where
  "popped (Consumer cid (C_pop2 x)) = [x]"
| "popped w = []"

fun owed :: "worker \<Rightarrow> string list" where
  "owed (Producer pid P_append2) = [item_B pid]"
| "owed w = []"

fun put :: "worker \<Rightarrow> string list" where
  "put (Producer pid P_append2) = [item_A pid]"
| "put (Producer pid P_print) = [item_A pid, item_B pid]"
| "put (Producer pid P_unlock) = [item_A pid, item_B pid]"
| "put w = []"

fun taken_ok :: "worker \<Rightarrow> bool" where
  "taken_ok (Consumer cid (C_print x y)) = is_pair x y"
| "taken_ok (Consumer cid C_raised) = False"
| "taken_ok w = True"

fun wid :: "worker \<Rightarrow> nat + nat" where
  "wid (Producer pid pc) = Inl pid"
| "wid (Consumer cid pc) = Inr cid"

definition pairs_ok :: "pool \<Rightarrow> bool" where
  "pairs_ok s \<longleftrightarrow>
     paired (concat (map popped (workers s)) @ buffer s @ concat (map owed (workers s))) \<and>
     suffix (concat (map put (workers s))) (buffer s) \<and>
     (\<forall>w \<in> set (workers s). taken_ok w) \<and>
     map wid (workers s) = map wid (workers pool_init)"

text \<open>Three states of the pool met in the examples below.\<close>

definition pool_ex1 :: pool where
  "pool_ex1 = \<lparr>buffer = [], space = 98, full = 0, lock = 0,
      workers = [Producer 0 P_append1, Producer 1 P_space1, Producer 2 P_space1, Consumer 0 C_full1],
      printed = []\<rparr>"

definition pool_ex2 :: pool where
  "pool_ex2 = \<lparr>buffer = [''P0-A'', ''P0-B''], space = 98, full = 0, lock = 0,
      workers = [Producer 0 P_sleep, Producer 1 P_space1, Producer 2 P_space1, Consumer 0 C_pop1],
      printed = [Produced 0 ''P0-A'' ''P0-B'' 2]\<rparr>"

definition pool_ex3 :: pool where
  "pool_ex3 = \<lparr>buffer = [], space = 98, full = 0, lock = 0,
      workers = [Producer 0 P_sleep, Producer 1 P_space1, Producer 2 P_space1,
        Consumer 0 (C_print ''P0-A'' ''P0-B'')],
      printed = [Produced 0 ''P0-A'' ''P0-B'' 2]\<rparr>"

section \<open>LockOrderedTransfer (deadlock\_simlation.py)\<close>

subsection \<open>Accounts\<close>

text \<open>
  The module creates two \<open>Account\<close> objects and keeps them in the globals \<open>account1\<close>
  and \<open>account2\<close>; a reference to an account is one of the two. The field \<open>lock\<close> of the
  class, a \<open>Semaphore(1)\<close>, is the counter \<open>acc_lock\<close>.
\<close>

datatype ref = account1 | account2

record account =
  account_id :: string
  balance :: int
  acc_lock :: nat

definition Account :: "string \<Rightarrow> int \<Rightarrow> account" where
  "Account ident initial = \<lparr>account_id = ident, balance = initial, acc_lock = 1\<rparr>"

type_synonym heap = "ref \<Rightarrow> account"

definition module_accounts :: heap where
  "module_accounts r =
     (case r of account1 \<Rightarrow> Account ''Account1'' 1000 | account2 \<Rightarrow> Account ''Account2'' 1000)"

subsection \<open>The numeric id of an account\<close>

text \<open>
  \<open>int(account_id.replace("Account", ""))\<close>. \<open>replace_Account\<close> removes the occurrences
  of \<open>Account\<close> from left to right. \<open>py_int\<close> is \<open>int\<close> on a string whose characters are
  code points below 256 (what a \<open>char\<close> holds): the white space that \<open>int\<close> drops around
  the number is tab, line feed, vertical tab, form feed, carriage return, space, U+0085
  and U+00A0 (the separators U+001C to U+001F are not dropped); one sign is allowed, with
  no space after it; the digits are \<open>0\<close> to \<open>9\<close> and may be separated by single
  underscores; more than \<open>int_max_str_digits\<close> digits (4300, the interpreter's default)
  are refused. On anything else \<open>int\<close> raises \<open>ValueError\<close>, which is the result \<open>None\<close>.
\<close>

function replace_Account :: "string \<Rightarrow> string" where
  "replace_Account s =
     (if s = [] then []
      else if take 7 s = ''Account'' then replace_Account (drop 7 s)
      else hd s # replace_Account (tl s))"
  by pat_completeness auto
termination
  by (relation "measure length") auto

declare replace_Account.simps [simp del]

definition is_space :: "char \<Rightarrow> bool" where
  "is_space c \<longleftrightarrow> of_char c \<in> set [9, 10, 11, 12, 13, 32, 133, 160 :: nat]"

definition strip :: "string \<Rightarrow> string" where
  "strip s = rev (dropWhile is_space (rev (dropWhile is_space s)))"

definition is_digit :: "char \<Rightarrow> bool" where
  "is_digit c \<longleftrightarrow> 48 \<le> (of_char c :: nat) \<and> (of_char c :: nat) \<le> 57"

definition digit_val :: "char \<Rightarrow> nat" where
  "digit_val c = of_char c - 48"

fun scan_digits :: "nat \<Rightarrow> string \<Rightarrow> nat option" where
  "scan_digits acc [] = Some acc"
| "scan_digits acc [c] = (if is_digit c then Some (10 * acc + digit_val c) else None)"
| "scan_digits acc (c # d # rest) =
     (if is_digit c then scan_digits (10 * acc + digit_val c) (d # rest)
      else if c = CHR ''_'' \<and> is_digit d then scan_digits (10 * acc + digit_val d) rest
      else None)"

definition int_max_str_digits :: nat where
  "int_max_str_digits = 4300"

definition py_nat :: "string \<Rightarrow> nat option" where
  "py_nat s =
     (if length (filter is_digit s) > int_max_str_digits then None
      else case s of [] \<Rightarrow> None
        | c # rest \<Rightarrow> if is_digit c then scan_digits (digit_val c) rest else None)"

definition py_int :: "string \<Rightarrow> int option" where
  "py_int s =
     (case strip s of [] \<Rightarrow> None
      | c # rest \<Rightarrow>
          if c = CHR ''-'' then map_option (\<lambda>n. - int n) (py_nat rest)
          else if c = CHR ''+'' then map_option int (py_nat rest)
          else map_option int (py_nat (c # rest)))"

definition numeric_id :: "string \<Rightarrow> int option" where
  "numeric_id ident = py_int (replace_Account ident)"

subsection \<open>The two transfer functions\<close>

text \<open>
  A call is the arguments of \<open>transfer\<close> or \<open>transfer_ordered\<close>. A thread is the function
  it runs, the call's arguments and the point it has reached; in \<open>transfer_ordered\<close> the
  points after the choice of the order carry the locals \<open>lock_a\<close> and \<open>lock_b\<close>. One step
  is one semaphore operation, or one statement of the \<open>try\<close> block, with the prints that
  follow it (\<open>time.sleep\<close> changes nothing); a thread whose \<open>acquire\<close> finds the counter at
  0 has no step. \<open>O_raised\<close> is the thread ended by the \<open>ValueError\<close> of \<open>int\<close>. What the
  functions print is recorded in \<open>events\<close>.
\<close>

record call =
  from_account :: ref
  to_account :: ref
  amount :: int
  thread_name :: string

datatype upc =
  U_attempt | U_acquire_from | U_acquire_to | U_check | U_debit | U_credit
  | U_release_to | U_release_from | U_done

datatype opc =
  O_order | O_acquire_a ref ref | O_acquire_b ref ref | O_check ref ref | O_debit ref ref
  | O_credit ref ref | O_release_b ref ref | O_release_a ref ref | O_done | O_raised

datatype thread = Transfer call upc | Transfer_ordered call opc

datatype event =
  Attempting string ref | Acquired string ref | Transferred string int ref ref
  | Insufficient string ref | Released string ref

record bank =
  accounts :: heap
  threads :: "thread list"
  events :: "event list"

definition acquire :: "ref \<Rightarrow> bank \<Rightarrow> bank" where
  "acquire r s =
     s\<lparr>accounts := (accounts s)(r := (accounts s r)\<lparr>acc_lock := acc_lock (accounts s r) - 1\<rparr>)\<rparr>"

definition release :: "ref \<Rightarrow> bank \<Rightarrow> bank" where
  "release r s =
     s\<lparr>accounts := (accounts s)(r := (accounts s r)\<lparr>acc_lock := acc_lock (accounts s r) + 1\<rparr>)\<rparr>"

definition add_balance :: "ref \<Rightarrow> int \<Rightarrow> bank \<Rightarrow> bank" where
  "add_balance r n s =
     s\<lparr>accounts := (accounts s)(r := (accounts s r)\<lparr>balance := balance (accounts s r) + n\<rparr>)\<rparr>"

definition say :: "event list \<Rightarrow> bank \<Rightarrow> bank" where
  "say es s = s\<lparr>events := events s @ es\<rparr>"

definition locked :: "ref \<Rightarrow> bank \<Rightarrow> bool" where
  "locked r s \<longleftrightarrow> acc_lock (accounts s r) = 0"

definition transfer :: "call \<Rightarrow> upc \<Rightarrow> bank \<Rightarrow> (upc \<times> bank) option" where
  "transfer c pc s =
     (let f = from_account c; t = to_account c; n = thread_name c in
      case pc of
        U_attempt \<Rightarrow> Some (U_acquire_from, say [Attempting n f] s)
      | U_acquire_from \<Rightarrow>
          if locked f s then None
          else Some (U_acquire_to, say [Acquired n f, Attempting n t] (acquire f s))
      | U_acquire_to \<Rightarrow>
          if locked t s then None else Some (U_check, say [Acquired n t] (acquire t s))
      | U_check \<Rightarrow>
          if balance (accounts s f) \<ge> amount c then Some (U_debit, s)
          else Some (U_release_to, say [Insufficient n f] s)
      | U_debit \<Rightarrow> Some (U_credit, add_balance f (- amount c) s)
      | U_credit \<Rightarrow>
          Some (U_release_to, say [Transferred n (amount c) f t] (add_balance t (amount c) s))
      | U_release_to \<Rightarrow> Some (U_release_from, say [Released n t] (release t s))
      | U_release_from \<Rightarrow> Some (U_done, say [Released n f] (release f s))
      | U_done \<Rightarrow> None)"

definition transfer_ordered :: "call \<Rightarrow> opc \<Rightarrow> bank \<Rightarrow> (opc \<times> bank) option" where
  "transfer_ordered c pc s =
     (let f = from_account c; t = to_account c; n = thread_name c in
      case pc of
        O_order \<Rightarrow>
          (case numeric_id (account_id (accounts s f)) of
             None \<Rightarrow> Some (O_raised, s)
           | Some from_id \<Rightarrow>
               (case numeric_id (account_id (accounts s t)) of
                  None \<Rightarrow> Some (O_raised, s)
                | Some to_id \<Rightarrow>
                    if from_id < to_id then Some (O_acquire_a f t, say [Attempting n f] s)
                    else Some (O_acquire_a t f, say [Attempting n t] s)))
      | O_acquire_a lock_a lock_b \<Rightarrow>
          if locked lock_a s then None
          else Some (O_acquire_b lock_a lock_b,
                 say [Acquired n lock_a, Attempting n lock_b] (acquire lock_a s))
      | O_acquire_b lock_a lock_b \<Rightarrow>
          if locked lock_b s then None
          else Some (O_check lock_a lock_b, say [Acquired n lock_b] (acquire lock_b s))
      | O_check lock_a lock_b \<Rightarrow>
          if balance (accounts s f) \<ge> amount c then Some (O_debit lock_a lock_b, s)
          else Some (O_release_b lock_a lock_b, say [Insufficient n f] s)
      | O_debit lock_a lock_b \<Rightarrow> Some (O_credit lock_a lock_b, add_balance f (- amount c) s)
      | O_credit lock_a lock_b \<Rightarrow>
          Some (O_release_b lock_a lock_b,
            say [Transferred n (amount c) f t] (add_balance t (amount c) s))
      | O_release_b lock_a lock_b \<Rightarrow>
          Some (O_release_a lock_a lock_b, say [Released n lock_b] (release lock_b s))
      | O_release_a lock_a lock_b \<Rightarrow> Some (O_done, say [Released n lock_a] (release lock_a s))
      | O_done \<Rightarrow> None
      | O_raised \<Rightarrow> None)"

text \<open>One step of the \<open>i\<close>-th thread.\<close>

definition bank_step :: "nat \<Rightarrow> bank \<Rightarrow> bank option" where
  "bank_step i s =
     (if i < length (threads s) then
        (case threads s ! i of
           Transfer c pc \<Rightarrow>
             (case transfer c pc s of None \<Rightarrow> None
              | Some (pc', s') \<Rightarrow> Some (s'\<lparr>threads := (threads s)[i := Transfer c pc']\<rparr>))
         | Transfer_ordered c pc \<Rightarrow>
             (case transfer_ordered c pc s of None \<Rightarrow> None
              | Some (pc', s') \<Rightarrow> Some (s'\<lparr>threads := (threads s)[i := Transfer_ordered c pc']\<rparr>)))
      else None)"

inductive_set bank_reach :: "bank \<Rightarrow> bank set" for s0 :: bank where
  bank_start: "s0 \<in> bank_reach s0"
| bank_next: "s \<in> bank_reach s0 \<Longrightarrow> bank_step i s = Some s' \<Longrightarrow> s' \<in> bank_reach s0"

fun bank_run :: "nat list \<Rightarrow> bank \<Rightarrow> bank option" where
  "bank_run [] s = Some s"
| "bank_run (i # sched) s = (case bank_step i s of None \<Rightarrow> None | Some s' \<Rightarrow> bank_run sched s')"

text \<open>A thread running on its own, for at most \<open>n\<close> steps: it stops where it has no step.\<close>

fun solo :: "nat \<Rightarrow> nat \<Rightarrow> bank \<Rightarrow> bank" where
  "solo 0 i s = s"
| "solo (Suc n) i s = (case bank_step i s of None \<Rightarrow> s | Some s' \<Rightarrow> solo n i s')"

subsection \<open>The drivers\<close>

text \<open>
  \<open>thread1_task\<close>, \<open>thread2_task\<close> and their ordered variants are the calls below.
  \<open>main\<close> starts two threads running \<open>transfer\<close>; \<open>main_ordered\<close> sets both balances to
  1000 and starts two threads running \<open>transfer_ordered\<close>. Both work on the module's
  accounts as they find them. After its two \<open>join\<close>s with a timeout, a driver reports a
  deadlock when one of its two threads is still alive.
\<close>

definition thread1_task :: call where
  "thread1_task =
     \<lparr>from_account = account1, to_account = account2, amount = 100, thread_name = ''Thread-1''\<rparr>"

definition thread2_task :: call where
  "thread2_task =
     \<lparr>from_account = account2, to_account = account1, amount = 50, thread_name = ''Thread-2''\<rparr>"

definition module_state :: bank where
  "module_state = \<lparr>accounts = module_accounts, threads = [], events = []\<rparr>"

definition main :: "bank \<Rightarrow> bank" where
  "main s = s\<lparr>threads := threads s @ [Transfer thread1_task U_attempt, Transfer thread2_task U_attempt]\<rparr>"

definition main_ordered :: "bank \<Rightarrow> bank" where
  "main_ordered s =
     s\<lparr>accounts := \<lambda>r. (accounts s r)\<lparr>balance := 1000\<rparr>,
       threads := threads s @
         [Transfer_ordered thread1_task O_order, Transfer_ordered thread2_task O_order]\<rparr>"

fun is_alive :: "thread \<Rightarrow> bool" where
  "is_alive (Transfer c U_done) = False"
| "is_alive (Transfer_ordered c O_done) = False"
| "is_alive (Transfer_ordered c O_raised) = False"
| "is_alive t = True"

datatype verdict = Deadlock_detected | Final_state int int

definition report :: "nat \<Rightarrow> nat \<Rightarrow> bank \<Rightarrow> verdict" where
  "report t1 t2 s =
     (if is_alive (threads s ! t1) \<or> is_alive (threads s ! t2) then Deadlock_detected
      else Final_state (balance (accounts s account1)) (balance (accounts s account2)))"

subsection \<open>Calls, lock accounting and example states\<close>

text \<open>
  \<open>calling t h\<close> is the state in which the thread \<open>t\<close> is the only one and the accounts
  are \<open>h\<close>; \<open>call_alone t h\<close> lets the thread run from there on its own for the 8 steps a
  call has at most.
\<close>

definition calling :: "thread \<Rightarrow> heap \<Rightarrow> bank" where
  "calling t h = \<lparr>accounts = h, threads = [t], events = []\<rparr>"

text \<open>
  \<open>steps_left\<close> bounds the steps a thread still has. \<open>in_flight\<close> is the amount a thread
  has taken from the source and not yet given to the destination; \<open>ledger\<close> adds it to
  the two balances of the thread's call.
\<close>

fun call_of :: "thread \<Rightarrow> call" where
  "call_of (Transfer c pc) = c"
| "call_of (Transfer_ordered c pc) = c"

fun steps_left :: "thread \<Rightarrow> nat" where
  "steps_left (Transfer c U_attempt) = 8"
| "steps_left (Transfer c U_acquire_from) = 7"
| "steps_left (Transfer c U_acquire_to) = 6"
| "steps_left (Transfer c U_check) = 5"
| "steps_left (Transfer c U_debit) = 4"
| "steps_left (Transfer c U_credit) = 3"
| "steps_left (Transfer c U_release_to) = 2"
| "steps_left (Transfer c U_release_from) = 1"
| "steps_left (Transfer c U_done) = 0"
| "steps_left (Transfer_ordered c O_order) = 8"
| "steps_left (Transfer_ordered c (O_acquire_a a b)) = 7"
| "steps_left (Transfer_ordered c (O_acquire_b a b)) = 6"
| "steps_left (Transfer_ordered c (O_check a b)) = 5"
| "steps_left (Transfer_ordered c (O_debit a b)) = 4"
| "steps_left (Transfer_ordered c (O_credit a b)) = 3"
| "steps_left (Transfer_ordered c (O_release_b a b)) = 2"
| "steps_left (Transfer_ordered c (O_release_a a b)) = 1"
| "steps_left (Transfer_ordered c O_done) = 0"
| "steps_left (Transfer_ordered c O_raised) = 0"

fun in_flight :: "thread \<Rightarrow> int" where
  "in_flight (Transfer c U_credit) = amount c"
| "in_flight (Transfer_ordered c (O_credit a b)) = amount c"
| "in_flight t = 0"

definition ledger :: "nat \<Rightarrow> bank \<Rightarrow> int" where
  "ledger i s =
     balance (accounts s (from_account (call_of (threads s ! i)))) +
     balance (accounts s (to_account (call_of (threads s ! i)))) + in_flight (threads s ! i)"

text \<open>
  \<open>settled c h s'\<close>: the guarded mutation of the call \<open>c\<close> has been applied to the
  accounts \<open>h\<close>, with its outcome reported and every lock counter back at its value.
\<close>

definition settled :: "call \<Rightarrow> heap \<Rightarrow> bank \<Rightarrow> bool" where
  "settled c h s' \<longleftrightarrow>
     (\<forall>r. acc_lock (accounts s' r) = acc_lock (h r)) \<and>
     (if amount c \<le> balance (h (from_account c))
      then balance (accounts s' (from_account c)) = balance (h (from_account c)) - amount c \<and>
           balance (accounts s' (to_account c)) = balance (h (to_account c)) + amount c \<and>
           Transferred (thread_name c) (amount c) (from_account c) (to_account c) \<in> set (events s') \<and>
           Insufficient (thread_name c) (from_account c) \<notin> set (events s')
      else (\<forall>r. balance (accounts s' r) = balance (h r)) \<and>
           Insufficient (thread_name c) (from_account c) \<in> set (events s') \<and>
           Transferred (thread_name c) (amount c) (from_account c) (to_account c) \<notin> set (events s'))"

definition call_alone :: "thread \<Rightarrow> heap \<Rightarrow> bank" where
  "call_alone t h = solo 8 0 (calling t h)"

text \<open>
  \<open>holds r t\<close> counts the acquisitions of the lock of \<open>r\<close> that the thread \<open>t\<close> has made
  and not released. \<open>locks_ok\<close>: each lock counter and the acquisitions held add up to 1,
  and the account ids are those given at creation.
\<close>

fun holds :: "ref \<Rightarrow> thread \<Rightarrow> nat" where
  "holds r (Transfer c U_attempt) = 0"
| "holds r (Transfer c U_acquire_from) = 0"
| "holds r (Transfer c U_acquire_to) = (if r = from_account c then 1 else 0)"
| "holds r (Transfer c U_release_from) = (if r = from_account c then 1 else 0)"
| "holds r (Transfer c U_done) = 0"
| "holds r (Transfer c pc) =
     (if r = from_account c then 1 else 0) + (if r = to_account c then 1 else 0)"
| "holds r (Transfer_ordered c O_order) = 0"
| "holds r (Transfer_ordered c (O_acquire_a a b)) = 0"
| "holds r (Transfer_ordered c (O_acquire_b a b)) = (if r = a then 1 else 0)"
| "holds r (Transfer_ordered c (O_check a b)) = (if r = a then 1 else 0) + (if r = b then 1 else 0)"
| "holds r (Transfer_ordered c (O_debit a b)) = (if r = a then 1 else 0) + (if r = b then 1 else 0)"
| "holds r (Transfer_ordered c (O_credit a b)) = (if r = a then 1 else 0) + (if r = b then 1 else 0)"
| "holds r (Transfer_ordered c (O_release_b a b)) = (if r = a then 1 else 0) + (if r = b then 1 else 0)"
| "holds r (Transfer_ordered c (O_release_a a b)) = (if r = a then 1 else 0)"
| "holds r (Transfer_ordered c O_done) = 0"
| "holds r (Transfer_ordered c O_raised) = 0"

definition locks_ok :: "bank \<Rightarrow> bool" where
  "locks_ok s \<longleftrightarrow>
     (\<forall>r. acc_lock (accounts s r) + sum_list (map (holds r) (threads s)) = 1 \<and>
          account_id (accounts s r) = account_id (module_accounts r))"

text \<open>
  The state of \<open>main\<close> after each of its threads has printed its first line and acquired
  its first lock.
\<close>

definition deadlocked :: bank where
  "deadlocked =
     (case bank_run [0, 0, 1, 1] (main module_state) of Some s \<Rightarrow> s | None \<Rightarrow> main module_state)"

text \<open>The counters of the locks of the accounts \<open>rs\<close>, in the order of \<open>rs\<close>.\<close>

definition lock_counters :: "ref list \<Rightarrow> bank \<Rightarrow> nat list" where
  "lock_counters rs s = map (\<lambda>r. acc_lock (accounts s r)) rs"

text \<open>Two accounts whose ids differ and have the same numeric part.\<close>

definition twin_accounts :: heap where
  "twin_accounts r =
     (case r of account1 \<Rightarrow> Account ''Account07'' 1000 | account2 \<Rightarrow> Account ''Account7'' 1000)"

text \<open>
  \<open>parked\<close>: the two threads of \<open>main\<close> wait for their second lock, both locks are taken,
  both balances are 1000, and each of the two threads of \<open>main_ordered\<close> is at its first
  statement or waits for the lock of \<open>account1\<close>.
\<close>

definition parked :: "bank \<Rightarrow> bool" where
  "parked s \<longleftrightarrow>
     (\<forall>r. acc_lock (accounts s r) = 0 \<and> balance (accounts s r) = 1000 \<and>
          account_id (accounts s r) = account_id (module_accounts r)) \<and>
     (\<exists>p \<in> {O_order, O_acquire_a account1 account2}.
      \<exists>q \<in> {O_order, O_acquire_a account1 account2}.
        threads s =
          [Transfer thread1_task U_acquire_to, Transfer thread2_task U_acquire_to,
           Transfer_ordered thread1_task p, Transfer_ordered thread2_task q])"

text \<open>
  For the run of \<open>main_ordered\<close> on free locks. \<open>wf_pc\<close>: the locals \<open>lock_a\<close> and
  \<open>lock_b\<close> of a thread are \<open>account1\<close> and \<open>account2\<close>, and it has not raised;
  \<open>debited\<close> and \<open>credited\<close>: it has executed its first, its second assignment;
  \<open>fresh_inv\<close>: the lock accounting holds and the balances are 1000 with the assignments
  executed so far applied. \<open>steps_total\<close> bounds the steps all threads still have.
\<close>

fun wf_pc :: "opc \<Rightarrow> bool" where
  "wf_pc O_order = True"
| "wf_pc (O_acquire_a a b) = (a = account1 \<and> b = account2)"
| "wf_pc (O_acquire_b a b) = (a = account1 \<and> b = account2)"
| "wf_pc (O_check a b) = (a = account1 \<and> b = account2)"
| "wf_pc (O_debit a b) = (a = account1 \<and> b = account2)"
| "wf_pc (O_credit a b) = (a = account1 \<and> b = account2)"
| "wf_pc (O_release_b a b) = (a = account1 \<and> b = account2)"
| "wf_pc (O_release_a a b) = (a = account1 \<and> b = account2)"
| "wf_pc O_done = True"
| "wf_pc O_raised = False"

fun debited :: "opc \<Rightarrow> bool" where
  "debited (O_credit a b) = True"
| "debited (O_release_b a b) = True"
| "debited (O_release_a a b) = True"
| "debited O_done = True"
| "debited pc = False"

fun credited :: "opc \<Rightarrow> bool" where
  "credited (O_release_b a b) = True"
| "credited (O_release_a a b) = True"
| "credited O_done = True"
| "credited pc = False"

definition fresh_inv :: "bank \<Rightarrow> bool" where
  "fresh_inv s \<longleftrightarrow>
     locks_ok s \<and>
     (\<exists>p q. threads s = [Transfer_ordered thread1_task p, Transfer_ordered thread2_task q] \<and>
        wf_pc p \<and> wf_pc q \<and>
        balance (accounts s account1) =
          1000 - (if debited p then 100 else 0) + (if credited q then 50 else 0) \<and>
        balance (accounts s account2) =
          1000 + (if credited p then 100 else 0) - (if debited q then 50 else 0))"

definition owes :: "opc \<Rightarrow> int \<Rightarrow> int" where
  "owes pc n = (if debited pc then n else 0)"

definition gave :: "opc \<Rightarrow> int \<Rightarrow> int" where
  "gave pc n = (if credited pc then n else 0)"

definition steps_total :: "bank \<Rightarrow> nat" where
  "steps_total s = sum_list (map steps_left (threads s))"

subsection \<open>Properties of the relay\<close>

lemmas relay_defs = relay_init_def process1_def process2_def process3_def relay_succs_def
  List.map_filter_def cycle1_def cycle2_def cycle3_def

lemma pass_unfold:
  "pass (numeral k) p home s =
     (case p s of None \<Rightarrow> None
      | Some s' \<Rightarrow> if home s' then Some s' else pass (pred_numeral k) p home s')"
  by (simp add: numeral_eq_Suc)

lemma cycle1_result:
  "at1 s = Wait \<Longrightarrow> 0 < sem_a s \<Longrightarrow>
   cycle1 s = Some (s\<lparr>sem_a := sem_a s - 1, out := out s @ [(1, ''H''), (1, ''E'')],
                      sem_b := sem_b s + 1\<rparr>)"
  by (simp add: relay_defs pass_unfold)

lemma cycle2_result:
  "at2 s = Wait \<Longrightarrow> 0 < sem_b s \<Longrightarrow>
   cycle2 s = Some (s\<lparr>sem_b := sem_b s - 1, out := out s @ [(2, ''L''), (2, ''L'')],
                      sem_c := sem_c s + 1\<rparr>)"
  by (simp add: relay_defs pass_unfold)

lemma cycle3_result:
  "at3 s = Wait3 \<Longrightarrow> 0 < sem_c s \<Longrightarrow>
   cycle3 s = Some (s\<lparr>sem_c := sem_c s - 1, out := out s @ [(3, ''O'')]\<rparr>)"
  by (simp add: relay_defs pass_unfold)

text \<open>
  Claim C8. The permit of Stage0 (semaphore \<open>a\<close>) starts at 1 and the permits of the
  other two stages (\<open>b\<close>, \<open>c\<close>) at 0. One pass of a stage through its loop body, started
  at the head of the loop with its permit available, comes back to the head of the loop
  having emitted exactly two reports for Stage0 (\<open>process1\<close>), exactly two for Stage1
  (\<open>process2\<close>) and exactly one for Stage2 (\<open>process3\<close>).
\<close>

theorem relay_permits_and_reports:
  "sem_a relay_init = 1 \<and> sem_b relay_init = 0 \<and> sem_c relay_init = 0 \<and>
   (at1 s = Wait \<and> 0 < sem_a s \<longrightarrow>
      (\<exists>s'. cycle1 s = Some s' \<and> at1 s' = Wait \<and> (\<exists>x y. out s' = out s @ [(1, x), (1, y)]))) \<and>
   (at2 s = Wait \<and> 0 < sem_b s \<longrightarrow>
      (\<exists>s'. cycle2 s = Some s' \<and> at2 s' = Wait \<and> (\<exists>x y. out s' = out s @ [(2, x), (2, y)]))) \<and>
   (at3 s = Wait3 \<and> 0 < sem_c s \<longrightarrow>
      (\<exists>s'. cycle3 s = Some s' \<and> at3 s' = Wait3 \<and> (\<exists>x. out s' = out s @ [(3, x)])))"
  by (simp add: cycle1_result cycle2_result cycle3_result) (simp add: relay_init_def)

theorem relay_permits_and_reports_witness:
  "at1 relay_init = Wait \<and> 0 < sem_a relay_init \<and>
   (\<exists>s'. cycle1 relay_init = Some s' \<and> at1 s' = Wait \<and>
      (\<exists>x y. out s' = out relay_init @ [(1, x), (1, y)]))"
  using relay_permits_and_reports [of relay_init] by (simp add: relay_init_def)

lemma relay_run_closed:
  "\<forall>s \<in> set (relay_run 10 relay_init). set (relay_succs s) \<subseteq> set (relay_run 10 relay_init)"
  by code_simp

lemma relay_run_init: "relay_init \<in> set (relay_run 10 relay_init)"
  by code_simp

lemma relay_reach_run: "s \<in> relay_reach \<Longrightarrow> s \<in> set (relay_run 10 relay_init)"
proof (induction rule: relay_reach.induct)
  case relay_start
  show ?case by (rule relay_run_init)
next
  case (relay_step s s')
  with relay_run_closed show ?case by blast
qed

lemma relay_run_out:
  "\<forall>s \<in> set (relay_run 10 relay_init).
     prefix (map snd (out s)) hello \<and> (map snd (out s) = hello \<longrightarrow> relay_succs s = [])"
  by code_simp

lemma relay_run_reach: "s \<in> relay_reach \<Longrightarrow> set (relay_run n s) \<subseteq> relay_reach"
proof (induction n arbitrary: s)
  case 0
  then show ?case by simp
next
  case (Suc n)
  show ?case
  proof (cases "relay_succs s")
    case Nil
    with Suc.prems show ?thesis by simp
  next
    case (Cons s' rest)
    then have "s' \<in> relay_reach"
      using Suc.prems by (auto intro: relay_reach.relay_step)
    from Suc.IH [OF this] Cons Suc.prems show ?thesis by simp
  qed
qed

text \<open>
  Claim C1 (what the code does instead). \<open>process3\<close> never releases \<open>a\<close>, so the permits
  do not form a cycle: every reachable state is one of the eleven states of the single
  run that prints H, E, L, L, O; what has been printed is always a prefix of that, and
  once all five are printed no thread has a step any more. Stage0 never runs a second
  time and the relay does not run forever.
\<close>

theorem relay_stops_after_first_round:
  "s \<in> relay_reach \<Longrightarrow>
     s \<in> set (relay_run 10 relay_init) \<and> prefix (map snd (out s)) hello \<and>
     (map snd (out s) = hello \<longrightarrow> relay_succs s = [])"
  using relay_reach_run [of s] relay_run_out by blast

theorem relay_stops_after_first_round_witness:
  "last (relay_run 10 relay_init) \<in> relay_reach \<and>
   map snd (out (last (relay_run 10 relay_init))) = hello \<and>
   relay_succs (last (relay_run 10 relay_init)) = []"
proof -
  have "relay_run 10 relay_init \<noteq> []"
    by code_simp
  then have "last (relay_run 10 relay_init) \<in> set (relay_run 10 relay_init)"
    by (rule last_in_set)
  with relay_run_reach [OF relay_reach.relay_start, of 10]
  have r: "last (relay_run 10 relay_init) \<in> relay_reach"
    by (rule subsetD)
  have o: "map snd (out (last (relay_run 10 relay_init))) = hello"
    by code_simp
  from relay_stops_after_first_round [OF r] o r show ?thesis by simp
qed


subsection \<open>Invariants of the bounded buffer\<close>

lemma sum_list_map_update:
  "i < length ws \<Longrightarrow>
   sum_list (map f (ws[i := w])) + f (ws ! i) = sum_list (map f ws) + (f w :: nat)"
proof (induction ws arbitrary: i)
  case Nil
  then show ?case by simp
next
  case (Cons a ws)
  then show ?case by (cases i) auto
qed

lemma total_step:
  assumes "i < length (workers s)"
  shows "total f (s'\<lparr>workers := (workers s)[i := w]\<rparr>) + f (workers s ! i) = total f s + f w"
  using sum_list_map_update [OF assms, of f w] by (simp add: total_def)

lemma total_cong [simp]:
  "total f (s\<lparr>buffer := b\<rparr>) = total f s"
  "total f (s\<lparr>space := n\<rparr>) = total f s"
  "total f (s\<lparr>full := n\<rparr>) = total f s"
  "total f (s\<lparr>lock := n\<rparr>) = total f s"
  "total f (s\<lparr>printed := p\<rparr>) = total f s"
  by (simp_all add: total_def)

lemma producer_counts:
  assumes inv: "counts_ok s" and i: "i < length (workers s)"
    and w: "workers s ! i = Producer pid pc" and st: "producer pid pc s = Some (pc', s')"
  shows "counts_ok (s'\<lparr>workers := (workers s)[i := Producer pid pc']\<rparr>)"
proof -
  note t = total_step [OF i, where s' = s' and w = "Producer pid pc'", unfolded w]
  show ?thesis
    using inv st t [where f = space_held] t [where f = full_held] t [where f = holds_lock]
    by (cases pc) (auto simp: producer_def counts_ok_def split: if_splits)
qed

lemma consumer_counts:
  assumes inv: "counts_ok s" and i: "i < length (workers s)"
    and w: "workers s ! i = Consumer cid pc" and st: "consumer cid pc s = Some (pc', s')"
  shows "counts_ok (s'\<lparr>workers := (workers s)[i := Consumer cid pc']\<rparr>)"
proof -
  note t = total_step [OF i, where s' = s' and w = "Consumer cid pc'", unfolded w]
  show ?thesis
    using inv st t [where f = space_held] t [where f = full_held] t [where f = holds_lock]
    by (cases pc) (auto simp: consumer_def counts_ok_def split: if_splits list.splits)
qed

lemma pool_step_counts:
  "counts_ok s \<Longrightarrow> pool_step i s = Some s' \<Longrightarrow> counts_ok s'"
  by (auto simp: pool_step_def producer_counts consumer_counts
      split: if_splits worker.splits option.splits)

lemma pool_init_counts: "counts_ok pool_init"
  by (simp add: counts_ok_def pool_init_def total_def BUFFER_SIZE_def upt_rec)

lemma pool_reach_counts: "s \<in> pool_reach \<Longrightarrow> counts_ok s"
  by (induction rule: pool_reach.induct) (auto intro: pool_init_counts pool_step_counts)

lemma others_zero:
  "sum_list (map f ws) \<le> f (ws ! i) \<Longrightarrow> i < length ws \<Longrightarrow> j < length ws \<Longrightarrow> j \<noteq> i \<Longrightarrow>
   f (ws ! j) = (0::nat)"
proof (induction ws arbitrary: i j)
  case Nil
  then show ?case by simp
next
  case (Cons a ws)
  show ?case
  proof (cases i)
    case 0
    with Cons.prems obtain j' where j: "j = Suc j'" "j' < length ws"
      by (cases j) auto
    from 0 Cons.prems have "sum_list (map f ws) = 0" by simp
    with j show ?thesis by simp
  next
    case (Suc i')
    with Cons.prems have i': "i' < length ws" by simp
    then have le: "f (ws ! i') \<le> sum_list (map f ws)"
      by (simp add: member_le_sum_list)
    show ?thesis
    proof (cases j)
      case 0
      with Suc Cons.prems le show ?thesis by simp
    next
      case (Suc j')
      with \<open>i = Suc i'\<close> Cons.prems le Cons.IH [of i' j'] show ?thesis by simp
    qed
  qed
qed

lemma concat_map_same:
  "i < length ws \<Longrightarrow> f (ws ! i) = [] \<Longrightarrow> f w = [] \<Longrightarrow>
   concat (map f (ws[i := w])) = concat (map f ws)"
proof (induction ws arbitrary: i)
  case Nil
  then show ?case by simp
next
  case (Cons a ws)
  then show ?case by (cases i) auto
qed

lemma concat_map_only:
  "i < length ws \<Longrightarrow> \<forall>j < length ws. j \<noteq> i \<longrightarrow> f (ws ! j) = [] \<Longrightarrow>
   concat (map f (ws[i := w])) = f w"
proof (induction ws arbitrary: i)
  case Nil
  then show ?case by simp
next
  case (Cons a ws)
  show ?case
  proof (cases i)
    case 0
    have "\<forall>x \<in> set ws. f x = []"
    proof
      fix x assume "x \<in> set ws"
      then obtain k where "k < length ws" "ws ! k = x" by (auto simp: in_set_conv_nth)
      with Cons.prems(2) [rule_format, of "Suc k"] 0 show "f x = []" by simp
    qed
    with 0 show ?thesis by simp
  next
    case (Suc i')
    from Cons.prems(2) [rule_format, of 0] Suc have a: "f a = []" by simp
    have "\<forall>j < length ws. j \<noteq> i' \<longrightarrow> f (ws ! j) = []"
      using Cons.prems(2) [rule_format, of "Suc j" for j] Suc by auto
    with Cons.IH [of i'] Cons.prems(1) Suc a show ?thesis by simp
  qed
qed

lemma no_lock_nothing:
  "holds_lock w = 0 \<Longrightarrow> popped w = [] \<and> owed w = [] \<and> put w = []"
  by (cases w rule: holds_lock.cases) simp_all

lemma paired_snoc: "paired xs \<Longrightarrow> is_pair a b \<Longrightarrow> paired (xs @ [a, b])"
  by (induction xs rule: paired.induct) simp_all

lemma no_lock_taken_ok: "holds_lock w = 0 \<Longrightarrow> taken_ok w"
  by (cases w rule: holds_lock.cases) simp_all

lemma lock_holder_alone:
  assumes "counts_ok s" "i < length (workers s)" "holds_lock (workers s ! i) = 1"
  shows "\<forall>j < length (workers s). j \<noteq> i \<longrightarrow> holds_lock (workers s ! j) = 0"
proof -
  from assms have "sum_list (map holds_lock (workers s)) \<le> holds_lock (workers s ! i)"
    by (simp add: counts_ok_def total_def)
  then show ?thesis using assms(2) others_zero [where f = holds_lock] by blast
qed

lemma taken_ok_update:
  "\<forall>x \<in> set ws. taken_ok x \<Longrightarrow> taken_ok w \<Longrightarrow> \<forall>x \<in> set (ws[i := w]). taken_ok x"
  using set_update_subset_insert [of ws i w] by auto

lemma wid_update:
  "i < length ws \<Longrightarrow> wid w = wid (ws ! i) \<Longrightarrow> map wid (ws[i := w]) = map wid ws"
  by (simp add: map_update list_update_same_conv)

lemma pairs_outside:
  assumes ok: "pairs_ok s" and i: "i < length (workers s)"
    and h: "holds_lock (workers s ! i) = 0"
    and q: "popped w = [] \<and> owed w = [] \<and> put w = []" and t: "taken_ok w"
    and id: "wid w = wid (workers s ! i)"
    and b: "buffer s' = buffer s" and ws: "workers s' = (workers s)[i := w]"
  shows "pairs_ok s'"
  using ok no_lock_nothing [OF h] q t
  by (auto simp: pairs_ok_def b ws concat_map_same [OF i] wid_update [OF i id]
      intro: taken_ok_update [rule_format])

lemma pairs_inside:
  assumes c: "counts_ok s" and i: "i < length (workers s)"
    and h: "holds_lock (workers s ! i) = 1" and ws: "workers s' = (workers s)[i := w]"
  shows "pairs_ok s' \<longleftrightarrow>
     paired (popped w @ buffer s' @ owed w) \<and> suffix (put w) (buffer s') \<and>
     (\<forall>x \<in> set (workers s'). taken_ok x) \<and> map wid (workers s') = map wid (workers pool_init)"
proof -
  from lock_holder_alone [OF c i h]
  have "\<forall>j < length (workers s). j \<noteq> i \<longrightarrow>
          popped (workers s ! j) = [] \<and> owed (workers s ! j) = [] \<and> put (workers s ! j) = []"
    by (simp add: no_lock_nothing)
  then show ?thesis
    by (simp add: pairs_ok_def ws concat_map_only [OF i])
qed

lemma pairs_inside_now:
  assumes c: "counts_ok s" and i: "i < length (workers s)"
    and h: "holds_lock (workers s ! i) = 1"
  shows "pairs_ok s \<longleftrightarrow>
     paired (popped (workers s ! i) @ buffer s @ owed (workers s ! i)) \<and>
     suffix (put (workers s ! i)) (buffer s) \<and>
     (\<forall>x \<in> set (workers s). taken_ok x) \<and> map wid (workers s) = map wid (workers pool_init)"
  by (rule pairs_inside [OF c i h]) simp

lemma held_le_total: "i < length (workers s) \<Longrightarrow> f (workers s ! i) \<le> total f s"
  by (simp add: total_def member_le_sum_list)

lemma producer_pid:
  "map wid (workers s) = map wid (workers pool_init) \<Longrightarrow> i < length (workers s) \<Longrightarrow>
   workers s ! i = Producer pid pc \<Longrightarrow> pid < 3"
proof -
  assume m: "map wid (workers s) = map wid (workers pool_init)" and i: "i < length (workers s)"
    and w: "workers s ! i = Producer pid pc"
  from m have "length (workers s) = 4"
    using length_map [of wid "workers s"] by (simp add: pool_init_def)
  with i have "i = 0 \<or> i = 1 \<or> i = 2 \<or> i = 3" by auto
  moreover have "(map wid (workers s)) ! i = Inl pid" using i w by simp
  ultimately show ?thesis unfolding m by (auto simp: pool_init_def upt_rec)
qed

lemma is_pair_items: "pid < 3 \<Longrightarrow> is_pair (item_A pid) (item_B pid)"
  by (auto simp: is_pair_def)

lemma producer_pairs:
  assumes ok: "pairs_ok s" and c: "counts_ok s" and i: "i < length (workers s)"
    and w: "workers s ! i = Producer pid pc" and st: "producer pid pc s = Some (pc', s')"
  shows "pairs_ok (s'\<lparr>workers := (workers s)[i := Producer pid pc']\<rparr>)"
proof (cases "holds_lock (Producer pid pc) = 1")
  case True
  from ok have m: "map wid (workers s) = map wid (workers pool_init)"
    by (simp add: pairs_ok_def)
  from producer_pid [OF m i w] have p: "is_pair (item_A pid) (item_B pid)"
    by (rule is_pair_items)
  from True w have h: "holds_lock (workers s ! i) = 1" by simp
  note now = pairs_inside_now [OF c i h, unfolded w]
  note aft = pairs_inside [OF c i h, where s' = "s'\<lparr>workers := (workers s)[i := Producer pid pc']\<rparr>"
      and w = "Producer pid pc'", simplified]
  have id: "map wid ((workers s)[i := Producer pid pc']) = map wid (workers s)"
    using wid_update [OF i, of "Producer pid pc'"] w by simp
  from ok have "\<forall>x \<in> set (workers s). taken_ok x"
    by (simp add: pairs_ok_def)
  then have t: "\<forall>x \<in> set ((workers s)[i := Producer pid pc']). taken_ok x"
    by (rule taken_ok_update) simp
  from True ok st p show ?thesis
    unfolding aft using now t id m
    by (cases pc) (auto simp: producer_def paired_snoc suffix_def)
next
  case False
  then have h: "holds_lock (workers s ! i) = 0"
    using w by (cases pc) simp_all
  from False st have q: "popped (Producer pid pc') = [] \<and> owed (Producer pid pc') = []
      \<and> put (Producer pid pc') = []" and b: "buffer s' = buffer s"
    by (cases pc; auto simp: producer_def split: if_splits)+
  show ?thesis
    by (rule pairs_outside [OF ok i h q]) (simp_all add: w b)
qed

lemma consumer_pairs:
  assumes ok: "pairs_ok s" and c: "counts_ok s" and i: "i < length (workers s)"
    and w: "workers s ! i = Consumer cid pc" and st: "consumer cid pc s = Some (pc', s')"
  shows "pairs_ok (s'\<lparr>workers := (workers s)[i := Consumer cid pc']\<rparr>)"
proof (cases "holds_lock (Consumer cid pc) = 1")
  case True
  from ok have m: "map wid (workers s) = map wid (workers pool_init)"
    by (simp add: pairs_ok_def)
  from True w have h: "holds_lock (workers s ! i) = 1" by simp
  note now = pairs_inside_now [OF c i h, unfolded w]
  note aft = pairs_inside [OF c i h, where s' = "s'\<lparr>workers := (workers s)[i := Consumer cid pc']\<rparr>"
      and w = "Consumer cid pc'", simplified]
  have id: "map wid ((workers s)[i := Consumer cid pc']) = map wid (workers s)"
    using wid_update [OF i, of "Consumer cid pc'"] w by simp
  from ok have "\<forall>x \<in> set (workers s). taken_ok x"
    by (simp add: pairs_ok_def)
  then have t: "taken_ok (Consumer cid pc') \<Longrightarrow>
      \<forall>x \<in> set ((workers s)[i := Consumer cid pc']). taken_ok x"
    by (rule taken_ok_update)
  from held_le_total [OF i, of full_held] w c
  have len: "full_held (Consumer cid pc) \<le> length (buffer s)"
    by (simp add: counts_ok_def)
  from True ok st len show ?thesis
    unfolding aft using now t id m
    by (cases pc) (auto simp: consumer_def split: list.splits)
next
  case False
  then have h: "holds_lock (workers s ! i) = 0"
    using w by (cases pc) simp_all
  from False st have q: "popped (Consumer cid pc') = [] \<and> owed (Consumer cid pc') = []
      \<and> put (Consumer cid pc') = []" and b: "buffer s' = buffer s"
      and t: "taken_ok (Consumer cid pc')"
    by (cases pc; auto simp: consumer_def split: if_splits)+
  show ?thesis
    by (rule pairs_outside [OF ok i h q t]) (simp_all add: w b)
qed

lemma pool_step_pairs:
  "pairs_ok s \<Longrightarrow> counts_ok s \<Longrightarrow> pool_step i s = Some s' \<Longrightarrow> pairs_ok s'"
  by (auto simp: pool_step_def producer_pairs consumer_pairs
      split: if_splits worker.splits option.splits)

lemma pool_init_pairs: "pairs_ok pool_init"
  by (simp add: pairs_ok_def pool_init_def upt_rec)

lemma pool_reach_inv: "s \<in> pool_reach \<Longrightarrow> counts_ok s \<and> pairs_ok s"
  by (induction rule: pool_reach.induct)
    (auto intro: pool_init_counts pool_init_pairs pool_step_counts pool_step_pairs)

lemma pool_run_reach: "s \<in> pool_reach \<Longrightarrow> pool_run sched s = Some s' \<Longrightarrow> s' \<in> pool_reach"
  by (induction sched arbitrary: s) (auto split: option.splits intro: pool_reach.pool_next)

lemma buffer_change_in_lock:
  "pool_step i s = Some s' \<Longrightarrow> buffer s' \<noteq> buffer s \<Longrightarrow> holds_lock (workers s ! i) = 1"
  apply (simp add: pool_step_def split: if_splits worker.splits option.splits prod.splits)
  subgoal for pid pc by (cases pc) (auto simp: producer_def split: if_splits)
  subgoal for cid pc by (cases pc) (auto simp: consumer_def split: if_splits list.splits)
  done

text \<open>
  Claim C5. In every state the pool reaches, under any interleaving of the producers'
  and the consumer's steps, the buffer holds at most \<open>BUFFER_SIZE = 100\<close> elements (and
  at least 0, being a list); and a step that changes the buffer is taken by a thread that
  holds the lock: the lock's counter is 0 and no other thread is between
  \<open>lock.acquire()\<close> and \<open>lock.release()\<close>.
\<close>

theorem buffer_bounded_and_locked:
  assumes "s \<in> pool_reach"
  shows "length (buffer s) \<le> BUFFER_SIZE \<and> BUFFER_SIZE = 100 \<and>
     (\<forall>i s'. pool_step i s = Some s' \<and> buffer s' \<noteq> buffer s \<longrightarrow>
        holds_lock (workers s ! i) = 1 \<and> lock s = 0 \<and>
        (\<forall>j < length (workers s). j \<noteq> i \<longrightarrow> holds_lock (workers s ! j) = 0))"
proof -
  from assms have c: "counts_ok s" by (simp add: pool_reach_inv)
  then have "length (buffer s) \<le> BUFFER_SIZE" by (simp add: counts_ok_def)
  moreover have "BUFFER_SIZE = 100" by (simp add: BUFFER_SIZE_def)
  moreover {
    fix i s' assume st: "pool_step i s = Some s'" and ne: "buffer s' \<noteq> buffer s"
    then have h: "holds_lock (workers s ! i) = 1" by (rule buffer_change_in_lock)
    from st have i: "i < length (workers s)" by (simp add: pool_step_def split: if_splits)
    from held_le_total [OF i, of holds_lock] h c have "lock s = 0"
      by (simp add: counts_ok_def)
    with h lock_holder_alone [OF c i h]
    have "holds_lock (workers s ! i) = 1 \<and> lock s = 0 \<and>
        (\<forall>j < length (workers s). j \<noteq> i \<longrightarrow> holds_lock (workers s ! j) = 0)" by simp
  }
  ultimately show ?thesis by blast
qed

lemma pool_ex1_run: "pool_run [0, 0, 0] pool_init = Some pool_ex1"
  by code_simp

lemma pool_ex1_reach: "pool_ex1 \<in> pool_reach"
  using pool_run_reach [OF pool_reach.pool_start pool_ex1_run] .

theorem buffer_bounded_and_locked_witness:
  "pool_ex1 \<in> pool_reach \<and> length (buffer pool_ex1) \<le> BUFFER_SIZE \<and>
   pool_step 0 pool_ex1 = Some (pool_ex1\<lparr>buffer := [''P0-A''],
      workers := (workers pool_ex1)[0 := Producer 0 P_append2]\<rparr>) \<and>
   holds_lock (workers pool_ex1 ! 0) = 1 \<and> lock pool_ex1 = 0"
proof -
  have st: "pool_step 0 pool_ex1 = Some (pool_ex1\<lparr>buffer := [''P0-A''],
      workers := (workers pool_ex1)[0 := Producer 0 P_append2]\<rparr>)"
    by code_simp
  from buffer_bounded_and_locked [OF pool_ex1_reach] st pool_ex1_reach
  show ?thesis by (simp add: pool_ex1_def)
qed


lemma taken_ok_nth:
  "pairs_ok s \<Longrightarrow> i < length (workers s) \<Longrightarrow> taken_ok (workers s ! i)"
  by (simp add: pairs_ok_def)

text \<open>
  Claim C9. In every reachable state a consumer about to execute its first
  \<open>buffer.pop(0)\<close> finds at least 2 elements in the buffer and one about to execute its
  second finds at least 1, so no consumer is ever in the state reached by popping from an
  empty list. Were a \<open>pop(0)\<close> executed on an empty buffer (state \<open>t\<close>, reachable or
  not), the thread would raise at once and take no further step.
\<close>

theorem pop_never_on_short_buffer:
  assumes "s \<in> pool_reach" and "i < length (workers s)"
  shows "(workers s ! i = Consumer cid C_pop1 \<longrightarrow> 2 \<le> length (buffer s)) \<and>
     (workers s ! i = Consumer cid (C_pop2 x) \<longrightarrow> 1 \<le> length (buffer s)) \<and>
     workers s ! i \<noteq> Consumer cid C_raised \<and>
     (buffer t = [] \<longrightarrow> consumer cid C_pop1 t = Some (C_raised, t) \<and>
        consumer cid (C_pop2 x) t = Some (C_raised, t)) \<and>
     consumer cid C_raised t = None"
proof -
  from assms(1) have c: "counts_ok s" and p: "pairs_ok s" by (simp_all add: pool_reach_inv)
  from held_le_total [OF assms(2), of full_held] c
  have "full_held (workers s ! i) \<le> length (buffer s)" by (simp add: counts_ok_def)
  moreover from taken_ok_nth [OF p assms(2)] have "workers s ! i \<noteq> Consumer cid C_raised"
    by auto
  ultimately show ?thesis by (auto simp: consumer_def)
qed

lemma pool_ex2_run: "pool_run [0, 0, 0, 0, 0, 0, 0, 0, 0, 3, 3, 3] pool_init = Some pool_ex2"
  by code_simp

lemma pool_ex2_reach: "pool_ex2 \<in> pool_reach"
  using pool_run_reach [OF pool_reach.pool_start pool_ex2_run] .

theorem pop_never_on_short_buffer_witness:
  "pool_ex2 \<in> pool_reach \<and> 3 < length (workers pool_ex2) \<and>
   workers pool_ex2 ! 3 = Consumer 0 C_pop1 \<and> 2 \<le> length (buffer pool_ex2) \<and>
   buffer pool_init = [] \<and> consumer 0 C_pop1 pool_init = Some (C_raised, pool_init)"
proof -
  have i: "3 < length (workers pool_ex2)" and w: "workers pool_ex2 ! 3 = Consumer 0 C_pop1"
    and b: "buffer pool_init = []"
    by (simp_all add: pool_ex2_def pool_init_def)
  from pop_never_on_short_buffer [OF pool_ex2_reach i, of 0 "''P0-A''" pool_init] w b
    pool_ex2_reach i
  show ?thesis by simp
qed


lemma paired_two: "paired xs \<Longrightarrow> 2 \<le> length xs \<Longrightarrow>
  \<exists>x y rest. xs = x # y # rest \<and> is_pair x y \<and> paired rest"
  by (cases xs rule: paired.cases) auto

lemma producer_steps:
  assumes "i < length (workers s)"
  shows
    "workers s ! i = Producer pid P_space1 \<Longrightarrow>
       pool_step i s = (if space s = 0 then None
         else Some (s\<lparr>space := space s - 1, workers := (workers s)[i := Producer pid P_space2]\<rparr>))"
    "workers s ! i = Producer pid P_space2 \<Longrightarrow>
       pool_step i s = (if space s = 0 then None
         else Some (s\<lparr>space := space s - 1, workers := (workers s)[i := Producer pid P_lock]\<rparr>))"
    "workers s ! i = Producer pid P_lock \<Longrightarrow>
       pool_step i s = (if lock s = 0 then None
         else Some (s\<lparr>lock := lock s - 1, workers := (workers s)[i := Producer pid P_append1]\<rparr>))"
    "workers s ! i = Producer pid P_append1 \<Longrightarrow>
       pool_run [i, i] s =
         Some (s\<lparr>buffer := buffer s @ [item_A pid, item_B pid],
                 workers := (workers s)[i := Producer pid P_print]\<rparr>)"
    "workers s ! i = Producer pid P_append2 \<Longrightarrow>
       pool_step i s =
         Some (s\<lparr>buffer := buffer s @ [item_B pid],
                 workers := (workers s)[i := Producer pid P_print]\<rparr>)"
    "workers s ! i = Producer pid P_print \<Longrightarrow>
       pool_run [i, i, i, i] s =
         Some (s\<lparr>printed := printed s @
                   [Produced pid (item_A pid) (item_B pid) (length (buffer s))],
                 lock := lock s + 1, full := full s + 1 + 1,
                 workers := (workers s)[i := Producer pid P_sleep]\<rparr>)"
    "workers s ! i = Producer pid P_sleep \<Longrightarrow>
       pool_step i s = Some (s\<lparr>workers := (workers s)[i := Producer pid P_space1]\<rparr>)"
  using assms by (simp_all add: pool_step_def producer_def)

lemma consumer_steps:
  assumes "i < length (workers s)"
  shows
    "workers s ! i = Consumer cid C_full1 \<Longrightarrow>
       pool_step i s = (if full s = 0 then None
         else Some (s\<lparr>full := full s - 1, workers := (workers s)[i := Consumer cid C_full2]\<rparr>))"
    "workers s ! i = Consumer cid C_full2 \<Longrightarrow>
       pool_step i s = (if full s = 0 then None
         else Some (s\<lparr>full := full s - 1, workers := (workers s)[i := Consumer cid C_lock]\<rparr>))"
    "workers s ! i = Consumer cid C_lock \<Longrightarrow>
       pool_step i s = (if lock s = 0 then None
         else Some (s\<lparr>lock := lock s - 1, workers := (workers s)[i := Consumer cid C_pop1]\<rparr>))"
    "workers s ! i = Consumer cid C_pop1 \<Longrightarrow> buffer s = x # y # rest \<Longrightarrow>
       pool_run [i, i] s =
         Some (s\<lparr>buffer := rest, workers := (workers s)[i := Consumer cid (C_print x y)]\<rparr>)"
    "workers s ! i = Consumer cid (C_print x y) \<Longrightarrow>
       pool_run [i, i, i, i] s =
         Some (s\<lparr>printed := printed s @ [Consumed cid x y (length (buffer s))],
                 lock := lock s + 1, space := space s + 1 + 1,
                 workers := (workers s)[i := Consumer cid C_sleep]\<rparr>)"
    "workers s ! i = Consumer cid C_sleep \<Longrightarrow>
       pool_step i s = Some (s\<lparr>workers := (workers s)[i := Consumer cid C_full1]\<rparr>)"
  using assms by (simp_all add: pool_step_def consumer_def)


text \<open>
  Claim C6. A producer takes its two free-slot permits by two separate acquisitions,
  each blocked while \<open>space\<close> is 0 and each decrementing it by one, and then the lock,
  blocked while it is taken. With the lock taken (its counter is 0) its next two steps
  append its two elements, first \<open>P1\<close> and then \<open>P2\<close>, at the end of the buffer; between
  the two appends and after them the buffer ends with what it has appended; its next four
  steps report, release the lock and release \<open>full\<close> twice. A consumer takes its two
  filled-slot permits and the lock in the same way; when it is about to pop, with the
  lock taken, the two oldest elements of the buffer are the two elements of one
  producer's pair in order, and its two steps remove exactly these two, which are then
  its \<open>P1\<close> and \<open>P2\<close>; its next four steps report, release the lock and release \<open>space\<close>
  twice. After its sleep each thread is back at the head of its loop.
\<close>

theorem pairs_in_pairs_out:
  assumes "s \<in> pool_reach" and "i < length (workers s)"
  shows
    "(workers s ! i = Producer pid P_space1 \<longrightarrow>
        pool_step i s = (if space s = 0 then None
          else Some (s\<lparr>space := space s - 1, workers := (workers s)[i := Producer pid P_space2]\<rparr>))) \<and>
     (workers s ! i = Producer pid P_space2 \<longrightarrow>
        pool_step i s = (if space s = 0 then None
          else Some (s\<lparr>space := space s - 1, workers := (workers s)[i := Producer pid P_lock]\<rparr>))) \<and>
     (workers s ! i = Producer pid P_lock \<longrightarrow>
        pool_step i s = (if lock s = 0 then None
          else Some (s\<lparr>lock := lock s - 1, workers := (workers s)[i := Producer pid P_append1]\<rparr>))) \<and>
     (workers s ! i = Producer pid P_append1 \<longrightarrow>
        lock s = 0 \<and>
        pool_run [i, i] s =
          Some (s\<lparr>buffer := buffer s @ [item_A pid, item_B pid],
                  workers := (workers s)[i := Producer pid P_print]\<rparr>)) \<and>
     (workers s ! i = Producer pid P_append2 \<longrightarrow>
        lock s = 0 \<and> (\<exists>older. buffer s = older @ [item_A pid]) \<and>
        pool_step i s =
          Some (s\<lparr>buffer := buffer s @ [item_B pid],
                  workers := (workers s)[i := Producer pid P_print]\<rparr>)) \<and>
     (workers s ! i = Producer pid P_print \<longrightarrow>
        lock s = 0 \<and> (\<exists>older. buffer s = older @ [item_A pid, item_B pid]) \<and>
        pool_run [i, i, i, i] s =
          Some (s\<lparr>printed := printed s @
                    [Produced pid (item_A pid) (item_B pid) (length (buffer s))],
                  lock := lock s + 1, full := full s + 1 + 1,
                  workers := (workers s)[i := Producer pid P_sleep]\<rparr>)) \<and>
     (workers s ! i = Producer pid P_sleep \<longrightarrow>
        pool_step i s = Some (s\<lparr>workers := (workers s)[i := Producer pid P_space1]\<rparr>)) \<and>
     (workers s ! i = Consumer cid C_full1 \<longrightarrow>
        pool_step i s = (if full s = 0 then None
          else Some (s\<lparr>full := full s - 1, workers := (workers s)[i := Consumer cid C_full2]\<rparr>))) \<and>
     (workers s ! i = Consumer cid C_full2 \<longrightarrow>
        pool_step i s = (if full s = 0 then None
          else Some (s\<lparr>full := full s - 1, workers := (workers s)[i := Consumer cid C_lock]\<rparr>))) \<and>
     (workers s ! i = Consumer cid C_lock \<longrightarrow>
        pool_step i s = (if lock s = 0 then None
          else Some (s\<lparr>lock := lock s - 1, workers := (workers s)[i := Consumer cid C_pop1]\<rparr>))) \<and>
     (workers s ! i = Consumer cid C_pop1 \<longrightarrow>
        lock s = 0 \<and>
        (\<exists>x y rest. buffer s = x # y # rest \<and>
           (\<exists>pid < 3. x = item_A pid \<and> y = item_B pid) \<and>
           pool_run [i, i] s =
             Some (s\<lparr>buffer := rest, workers := (workers s)[i := Consumer cid (C_print x y)]\<rparr>))) \<and>
     (workers s ! i = Consumer cid (C_print x y) \<longrightarrow>
        lock s = 0 \<and> (\<exists>pid < 3. x = item_A pid \<and> y = item_B pid) \<and>
        pool_run [i, i, i, i] s =
          Some (s\<lparr>printed := printed s @ [Consumed cid x y (length (buffer s))],
                  lock := lock s + 1, space := space s + 1 + 1,
                  workers := (workers s)[i := Consumer cid C_sleep]\<rparr>)) \<and>
     (workers s ! i = Consumer cid C_sleep \<longrightarrow>
        pool_step i s = Some (s\<lparr>workers := (workers s)[i := Consumer cid C_full1]\<rparr>))"
proof -
  from assms(1) have c: "counts_ok s" and p: "pairs_ok s" by (simp_all add: pool_reach_inv)
  note i = assms(2)
  note ps = producer_steps [OF i]
  note cs = consumer_steps [OF i]
  have lock0: "holds_lock (workers s ! i) = 1 \<Longrightarrow> lock s = 0"
    using held_le_total [OF i, of holds_lock] c by (simp add: counts_ok_def)
  have put: "holds_lock (workers s ! i) = 1 \<Longrightarrow> suffix (put (workers s ! i)) (buffer s)"
    using p pairs_inside_now [OF c i] by simp
  have app1: "workers s ! i = Producer pid P_append1 \<longrightarrow>
        lock s = 0 \<and>
        pool_run [i, i] s =
          Some (s\<lparr>buffer := buffer s @ [item_A pid, item_B pid],
                  workers := (workers s)[i := Producer pid P_print]\<rparr>)"
    using lock0 ps(4) by simp
  have app2: "workers s ! i = Producer pid P_append2 \<longrightarrow>
        lock s = 0 \<and> (\<exists>older. buffer s = older @ [item_A pid]) \<and>
        pool_step i s =
          Some (s\<lparr>buffer := buffer s @ [item_B pid],
                  workers := (workers s)[i := Producer pid P_print]\<rparr>)"
    using lock0 put ps(5) by (auto simp: suffix_def)
  have prt: "workers s ! i = Producer pid P_print \<longrightarrow>
        lock s = 0 \<and> (\<exists>older. buffer s = older @ [item_A pid, item_B pid]) \<and>
        pool_run [i, i, i, i] s =
          Some (s\<lparr>printed := printed s @
                    [Produced pid (item_A pid) (item_B pid) (length (buffer s))],
                  lock := lock s + 1, full := full s + 1 + 1,
                  workers := (workers s)[i := Producer pid P_sleep]\<rparr>)"
    using lock0 put ps(6) by (auto simp: suffix_def)
  have pop: "workers s ! i = Consumer cid C_pop1 \<longrightarrow>
        lock s = 0 \<and>
        (\<exists>x y rest. buffer s = x # y # rest \<and>
           (\<exists>pid < 3. x = item_A pid \<and> y = item_B pid) \<and>
           pool_run [i, i] s =
             Some (s\<lparr>buffer := rest, workers := (workers s)[i := Consumer cid (C_print x y)]\<rparr>))"
  proof
    assume w: "workers s ! i = Consumer cid C_pop1"
    then have h: "holds_lock (workers s ! i) = 1" by simp
    from held_le_total [OF i, of full_held] c w have "2 \<le> length (buffer s)"
      by (simp add: counts_ok_def)
    moreover from p pairs_inside_now [OF c i h] w have "paired (buffer s)"
      by simp
    ultimately obtain x y rest where b: "buffer s = x # y # rest" and xy: "is_pair x y"
      using paired_two by blast
    from consumer_steps(4) [OF i w b] b xy lock0 [OF h] show "lock s = 0 \<and>
        (\<exists>x y rest. buffer s = x # y # rest \<and>
           (\<exists>pid < 3. x = item_A pid \<and> y = item_B pid) \<and>
           pool_run [i, i] s =
             Some (s\<lparr>buffer := rest, workers := (workers s)[i := Consumer cid (C_print x y)]\<rparr>))"
      unfolding is_pair_def by blast
  qed
  have got: "workers s ! i = Consumer cid (C_print x y) \<longrightarrow>
        lock s = 0 \<and> (\<exists>pid < 3. x = item_A pid \<and> y = item_B pid) \<and>
        pool_run [i, i, i, i] s =
          Some (s\<lparr>printed := printed s @ [Consumed cid x y (length (buffer s))],
                  lock := lock s + 1, space := space s + 1 + 1,
                  workers := (workers s)[i := Consumer cid C_sleep]\<rparr>)"
    using taken_ok_nth [OF p i] lock0 cs(5) by (auto simp: is_pair_def)
  from ps(1-3,7) cs(1-3,6) app1 app2 prt pop got show ?thesis by blast
qed

lemma pool_ex3_run: "pool_run [3, 3] pool_ex2 = Some pool_ex3"
  by code_simp

lemma pool_ex3_reach: "pool_ex3 \<in> pool_reach"
  using pool_run_reach [OF pool_ex2_reach pool_ex3_run] .

theorem pairs_in_pairs_out_witness:
  "pool_ex3 \<in> pool_reach \<and> 3 < length (workers pool_ex3) \<and>
   workers pool_ex3 ! 3 = Consumer 0 (C_print ''P0-A'' ''P0-B'') \<and>
   (\<exists>pid < 3. ''P0-A'' = item_A pid \<and> ''P0-B'' = item_B pid) \<and>
   pool_ex1 \<in> pool_reach \<and> workers pool_ex1 ! 0 = Producer 0 P_append1 \<and>
   pool_run [0, 0] pool_ex1 =
     Some (pool_ex1\<lparr>buffer := buffer pool_ex1 @ [item_A 0, item_B 0],
        workers := (workers pool_ex1)[0 := Producer 0 P_print]\<rparr>)"
proof -
  have i: "3 < length (workers pool_ex3)"
    and w: "workers pool_ex3 ! 3 = Consumer 0 (C_print ''P0-A'' ''P0-B'')"
    by (simp_all add: pool_ex3_def)
  have j: "0 < length (workers pool_ex1)" and v: "workers pool_ex1 ! 0 = Producer 0 P_append1"
    by (simp_all add: pool_ex1_def)
  from pairs_in_pairs_out [OF pool_ex3_reach i, of _ 0 "''P0-A''" "''P0-B''"] w
    pairs_in_pairs_out [OF pool_ex1_reach j, of 0] v
    pool_ex3_reach pool_ex1_reach i
  show ?thesis by simp
qed

subsection \<open>Single calls of the transfer functions\<close>

lemma solo_unfold:
  "solo (numeral k) i s = (case bank_step i s of None \<Rightarrow> s | Some s' \<Rightarrow> solo (pred_numeral k) i s')"
  by (simp add: numeral_eq_Suc)

lemmas bank_defs = bank_step_def transfer_def transfer_ordered_def acquire_def release_def
  add_balance_def say_def locked_def calling_def Let_def

lemma transfer_alone:
  assumes "from_account c \<noteq> to_account c"
    and "acc_lock (h (from_account c)) \<noteq> 0" and "acc_lock (h (to_account c)) \<noteq> 0"
  shows "solo 8 0 (calling (Transfer c U_attempt) h) =
    \<lparr>accounts =
       (if amount c \<le> balance (h (from_account c))
        then h(from_account c := (h (from_account c))\<lparr>balance := balance (h (from_account c)) - amount c\<rparr>,
               to_account c := (h (to_account c))\<lparr>balance := balance (h (to_account c)) + amount c\<rparr>)
        else h),
     threads = [Transfer c U_done],
     events = [Attempting (thread_name c) (from_account c), Acquired (thread_name c) (from_account c),
        Attempting (thread_name c) (to_account c), Acquired (thread_name c) (to_account c),
        if amount c \<le> balance (h (from_account c))
        then Transferred (thread_name c) (amount c) (from_account c) (to_account c)
        else Insufficient (thread_name c) (from_account c),
        Released (thread_name c) (to_account c), Released (thread_name c) (from_account c)]\<rparr>"
  using assms by (auto simp: solo_unfold bank_defs fun_eq_iff)

lemma ordered_alone:
  assumes "numeric_id (account_id (h (from_account c))) = Some i"
    and "numeric_id (account_id (h (to_account c))) = Some j"
    and "from_account c \<noteq> to_account c"
    and "acc_lock (h (from_account c)) \<noteq> 0" and "acc_lock (h (to_account c)) \<noteq> 0"
  shows "solo 8 0 (calling (Transfer_ordered c O_order) h) =
    (let lock_a = (if i < j then from_account c else to_account c);
         lock_b = (if i < j then to_account c else from_account c) in
    \<lparr>accounts =
       (if amount c \<le> balance (h (from_account c))
        then h(from_account c := (h (from_account c))\<lparr>balance := balance (h (from_account c)) - amount c\<rparr>,
               to_account c := (h (to_account c))\<lparr>balance := balance (h (to_account c)) + amount c\<rparr>)
        else h),
     threads = [Transfer_ordered c O_done],
     events = [Attempting (thread_name c) lock_a, Acquired (thread_name c) lock_a,
        Attempting (thread_name c) lock_b, Acquired (thread_name c) lock_b,
        if amount c \<le> balance (h (from_account c))
        then Transferred (thread_name c) (amount c) (from_account c) (to_account c)
        else Insufficient (thread_name c) (from_account c),
        Released (thread_name c) lock_b, Released (thread_name c) lock_a]\<rparr>)"
  using assms by (auto simp: solo_unfold bank_defs fun_eq_iff)

lemma solo_stuck: "bank_step i s = None \<Longrightarrow> solo n i s = s"
  by (cases n) simp_all

lemma solo_add: "solo (m + n) i s = solo n i (solo m i s)"
  by (induction m arbitrary: s) (auto simp: solo_stuck split: option.splits)

lemma solo_enough:
  assumes "bank_step i (solo m i s) = None" and "m \<le> n"
  shows "solo n i s = solo m i s"
proof -
  from assms(2) have "n = m + (n - m)" by simp
  then have "solo n i s = solo (n - m) i (solo m i s)"
    using solo_add [of m "n - m" i s] by simp
  with assms(1) show ?thesis by (simp add: solo_stuck)
qed

lemma transfer_step:
  assumes "transfer c pc s = Some (pc', s')" and "from_account c \<noteq> to_account c"
  shows "steps_left (Transfer c pc') < steps_left (Transfer c pc) \<and>
    balance (accounts s' (from_account c)) + balance (accounts s' (to_account c)) +
      in_flight (Transfer c pc') =
    balance (accounts s (from_account c)) + balance (accounts s (to_account c)) +
      in_flight (Transfer c pc)"
  using assms
  by (cases pc)
    (auto simp: transfer_def Let_def acquire_def release_def add_balance_def say_def
      split: if_splits)

lemma transfer_ordered_step:
  assumes "transfer_ordered c pc s = Some (pc', s')" and "from_account c \<noteq> to_account c"
  shows "steps_left (Transfer_ordered c pc') < steps_left (Transfer_ordered c pc) \<and>
    balance (accounts s' (from_account c)) + balance (accounts s' (to_account c)) +
      in_flight (Transfer_ordered c pc') =
    balance (accounts s (from_account c)) + balance (accounts s (to_account c)) +
      in_flight (Transfer_ordered c pc)"
  using assms
  by (cases pc)
    (auto simp: transfer_ordered_def Let_def acquire_def release_def add_balance_def say_def
      split: if_splits option.splits)

lemma bank_step_ledger:
  assumes "bank_step i s = Some s'"
    and "from_account (call_of (threads s ! i)) \<noteq> to_account (call_of (threads s ! i))"
  shows "steps_left (threads s' ! i) < steps_left (threads s ! i) \<and>
    call_of (threads s' ! i) = call_of (threads s ! i) \<and> ledger i s' = ledger i s"
  using assms transfer_step transfer_ordered_step
  by (fastforce simp: bank_step_def ledger_def split: if_splits thread.splits option.splits)

lemma stuck_nothing_in_flight:
  "bank_step i s = None \<Longrightarrow> i < length (threads s) \<Longrightarrow> in_flight (threads s ! i) = 0"
  by (cases "threads s ! i" rule: in_flight.cases)
    (auto simp: bank_step_def transfer_def transfer_ordered_def Let_def)

lemma bank_step_length: "bank_step i s = Some s' \<Longrightarrow> length (threads s') = length (threads s)"
  by (auto simp: bank_step_def transfer_def transfer_ordered_def Let_def acquire_def release_def
      add_balance_def say_def
      split: if_splits thread.splits option.splits upc.splits opc.splits)

lemma solo_ledger:
  assumes "from_account (call_of (threads s ! i)) \<noteq> to_account (call_of (threads s ! i))"
    and "steps_left (threads s ! i) \<le> n"
  shows "bank_step i (solo n i s) = None \<and> ledger i (solo n i s) = ledger i s \<and>
    call_of (threads (solo n i s) ! i) = call_of (threads s ! i) \<and>
    length (threads (solo n i s)) = length (threads s)"
  using assms
proof (induction n arbitrary: s)
  case 0
  then have "steps_left (threads s ! i) = 0" by simp
  then have "bank_step i s = None"
    using bank_step_ledger [of i s] 0(1) by (cases "bank_step i s") auto
  then show ?case by simp
next
  case (Suc n)
  show ?case
  proof (cases "bank_step i s")
    case None
    then show ?thesis by simp
  next
    case (Some s')
    from bank_step_ledger [OF Some Suc.prems(1)] Suc.prems bank_step_length [OF Some]
      Suc.IH [of s'] Some
    show ?thesis by simp
  qed
qed

lemma transfer_holds_both:
  assumes "from_account c \<noteq> to_account c"
    and "acc_lock (h (from_account c)) \<noteq> 0" and "acc_lock (h (to_account c)) \<noteq> 0"
  shows "threads (solo 3 0 (calling (Transfer c U_attempt) h)) = [Transfer c U_check] \<and>
    lock_counters [from_account c, to_account c] (solo 3 0 (calling (Transfer c U_attempt) h)) =
      [acc_lock (h (from_account c)) - 1, acc_lock (h (to_account c)) - 1]"
  using assms by (auto simp: solo_unfold bank_defs lock_counters_def)

lemma ordered_holds_both:
  assumes "numeric_id (account_id (h (from_account c))) = Some i"
    and "numeric_id (account_id (h (to_account c))) = Some j"
    and "from_account c \<noteq> to_account c"
    and "acc_lock (h (from_account c)) \<noteq> 0" and "acc_lock (h (to_account c)) \<noteq> 0"
  shows "lock_counters [from_account c, to_account c]
      (solo 3 0 (calling (Transfer_ordered c O_order) h)) =
      [acc_lock (h (from_account c)) - 1, acc_lock (h (to_account c)) - 1]"
  using assms by (auto simp: solo_unfold bank_defs lock_counters_def)

lemma ordered_raises:
  assumes "numeric_id (account_id (h (from_account c))) = None \<or>
    numeric_id (account_id (h (to_account c))) = None"
  shows "solo 8 0 (calling (Transfer_ordered c O_order) h) =
    \<lparr>accounts = h, threads = [Transfer_ordered c O_raised], events = []\<rparr>"
proof -
  let ?r = "\<lparr>accounts = h, threads = [Transfer_ordered c O_raised], events = []\<rparr>"
  have "transfer_ordered c O_order (calling (Transfer_ordered c O_order) h) =
      Some (O_raised, calling (Transfer_ordered c O_order) h)"
    using assms
    by (cases "numeric_id (account_id (h (from_account c)))")
      (auto simp: transfer_ordered_def calling_def)
  then have "bank_step 0 (calling (Transfer_ordered c O_order) h) = Some ?r"
    by (simp add: bank_step_def) (simp add: calling_def)
  moreover have "bank_step 0 ?r = None"
    by (simp add: bank_step_def transfer_ordered_def)
  ultimately show ?thesis
    by (simp add: solo_unfold)
qed

text \<open>
  Claim C4. A call of \<open>transfer\<close> between two different accounts whose locks are free,
  executed on its own, holds both locks when it reaches the guard and returns (it ends
  at \<open>U_done\<close>) with the outcome \<open>settled\<close>: if \<open>from.balance \<ge> amount\<close> the source is
  decremented and the destination incremented by \<open>amount\<close> and the transfer is reported;
  otherwise no balance changes and insufficient funds is reported, as an event and not
  as an exception; in both branches every lock counter is back at its value. The same
  holds of \<open>transfer_ordered\<close>, which ends at \<open>O_done\<close>, when the ids of the two accounts
  have a numeric part; when one has none, \<open>transfer_ordered\<close> raises before it acquires
  a lock or reports anything.
\<close>

theorem transfer_outcome:
  assumes "from_account c \<noteq> to_account c"
    and "acc_lock (h (from_account c)) \<noteq> 0" and "acc_lock (h (to_account c)) \<noteq> 0"
  shows
    "threads (call_alone (Transfer c U_attempt) h) = [Transfer c U_done] \<and>
     settled c h (call_alone (Transfer c U_attempt) h) \<and>
     lock_counters [from_account c, to_account c] (solo 3 0 (calling (Transfer c U_attempt) h)) =
       [acc_lock (h (from_account c)) - 1, acc_lock (h (to_account c)) - 1] \<and>
     (numeric_id (account_id (h (from_account c))) \<noteq> None \<and>
      numeric_id (account_id (h (to_account c))) \<noteq> None \<longrightarrow>
        threads (call_alone (Transfer_ordered c O_order) h) = [Transfer_ordered c O_done] \<and>
        settled c h (call_alone (Transfer_ordered c O_order) h) \<and>
        lock_counters [from_account c, to_account c]
          (solo 3 0 (calling (Transfer_ordered c O_order) h)) =
          [acc_lock (h (from_account c)) - 1, acc_lock (h (to_account c)) - 1]) \<and>
     (numeric_id (account_id (h (from_account c))) = None \<or>
      numeric_id (account_id (h (to_account c))) = None \<longrightarrow>
        call_alone (Transfer_ordered c O_order) h =
          \<lparr>accounts = h, threads = [Transfer_ordered c O_raised], events = []\<rparr>)"
proof (intro conjI impI)
  show "threads (call_alone (Transfer c U_attempt) h) = [Transfer c U_done]"
    unfolding call_alone_def transfer_alone [OF assms] by simp
  show "settled c h (call_alone (Transfer c U_attempt) h)"
    unfolding call_alone_def transfer_alone [OF assms] using assms(1) by (simp add: settled_def)
  show "lock_counters [from_account c, to_account c] (solo 3 0 (calling (Transfer c U_attempt) h)) =
       [acc_lock (h (from_account c)) - 1, acc_lock (h (to_account c)) - 1]"
    using transfer_holds_both [OF assms] by simp
next
  assume "numeric_id (account_id (h (from_account c))) \<noteq> None \<and>
      numeric_id (account_id (h (to_account c))) \<noteq> None"
  then obtain i j where ij: "numeric_id (account_id (h (from_account c))) = Some i"
    "numeric_id (account_id (h (to_account c))) = Some j" by auto
  note r = ordered_alone [OF ij assms]
  show "threads (call_alone (Transfer_ordered c O_order) h) = [Transfer_ordered c O_done]"
    unfolding call_alone_def r by (simp add: Let_def)
  show "settled c h (call_alone (Transfer_ordered c O_order) h)"
    unfolding call_alone_def r using assms(1) by (simp add: settled_def Let_def)
  show "lock_counters [from_account c, to_account c]
          (solo 3 0 (calling (Transfer_ordered c O_order) h)) =
          [acc_lock (h (from_account c)) - 1, acc_lock (h (to_account c)) - 1]"
    by (rule ordered_holds_both [OF ij assms])
next
  assume "numeric_id (account_id (h (from_account c))) = None \<or>
      numeric_id (account_id (h (to_account c))) = None"
  then show "call_alone (Transfer_ordered c O_order) h =
          \<lparr>accounts = h, threads = [Transfer_ordered c O_raised], events = []\<rparr>"
    unfolding call_alone_def by (rule ordered_raises)
qed

lemma numeric_id_Account1: "numeric_id ''Account1'' = Some 1"
  by code_simp

lemma numeric_id_Account2: "numeric_id ''Account2'' = Some 2"
  by code_simp

lemmas module_simps = module_accounts_def Account_def thread1_task_def thread2_task_def
  numeric_id_Account1 numeric_id_Account2

theorem transfer_outcome_witness:
  "threads (call_alone (Transfer_ordered thread2_task O_order) module_accounts) =
     [Transfer_ordered thread2_task O_done] \<and>
   settled thread2_task module_accounts (call_alone (Transfer thread2_task U_attempt) module_accounts) \<and>
   balance (accounts (call_alone (Transfer_ordered thread2_task O_order) module_accounts) account1) = 1050"
  using transfer_outcome [of thread2_task module_accounts]
  by (simp add: module_simps settled_def)

text \<open>
  Claim C10. A call of either transfer function on two different accounts, executed on
  its own until it has no step left (8 steps or more), leaves the sum of the two balances
  as it was: for any amount and any state of the locks, whether the call transfers,
  reports insufficient funds, blocks on a lock or raises.
\<close>

theorem transfer_conserves_money:
  assumes "from_account c \<noteq> to_account c"
    and "t = Transfer c U_attempt \<or> t = Transfer_ordered c O_order" and "8 \<le> n"
  shows "balance (accounts (solo n 0 (calling t h)) (from_account c)) +
     balance (accounts (solo n 0 (calling t h)) (to_account c)) =
     balance (h (from_account c)) + balance (h (to_account c))"
proof -
  let ?s = "calling t h"
  from assms(2) have t: "threads ?s ! 0 = t" "call_of t = c" "in_flight t = 0"
    "steps_left t = 8" "length (threads ?s) = 1"
    by (auto simp: calling_def)
  from solo_ledger [of ?s 0 n] t assms(1,3)
  have r: "bank_step 0 (solo n 0 ?s) = None" "ledger 0 (solo n 0 ?s) = ledger 0 ?s"
    "call_of (threads (solo n 0 ?s) ! 0) = c" "length (threads (solo n 0 ?s)) = 1"
    by simp_all
  from stuck_nothing_in_flight [OF r(1)] r(4) have "in_flight (threads (solo n 0 ?s) ! 0) = 0"
    by simp
  with r(2,3) t show ?thesis by (simp add: ledger_def calling_def)
qed

theorem transfer_conserves_money_witness:
  "balance (accounts (solo 8 0 (calling (Transfer thread1_task U_attempt) module_accounts)) account1) +
   balance (accounts (solo 8 0 (calling (Transfer thread1_task U_attempt) module_accounts)) account2) =
   2000"
  using transfer_conserves_money [of thread1_task "Transfer thread1_task U_attempt" 8 module_accounts]
  by (simp add: module_simps)

lemma ordered_blocked_first:
  assumes "numeric_id (account_id (h lock_a)) = Some i"
    and "numeric_id (account_id (h lock_b)) = Some j" and "i < j"
    and "from_account c = lock_a \<and> to_account c = lock_b \<or>
         from_account c = lock_b \<and> to_account c = lock_a"
    and "acc_lock (h lock_a) = 0"
  shows "solo 8 0 (calling (Transfer_ordered c O_order) h) =
    \<lparr>accounts = h, threads = [Transfer_ordered c (O_acquire_a lock_a lock_b)],
     events = [Attempting (thread_name c) lock_a]\<rparr>"
  using assms by (auto simp: solo_unfold bank_defs)

lemma ordered_blocked_second:
  assumes "numeric_id (account_id (h lock_a)) = Some i"
    and "numeric_id (account_id (h lock_b)) = Some j" and "i < j"
    and "from_account c = lock_a \<and> to_account c = lock_b \<or>
         from_account c = lock_b \<and> to_account c = lock_a"
    and "acc_lock (h lock_a) \<noteq> 0" and "acc_lock (h lock_b) = 0"
  shows "solo 8 0 (calling (Transfer_ordered c O_order) h) =
    \<lparr>accounts = h(lock_a := (h lock_a)\<lparr>acc_lock := acc_lock (h lock_a) - 1\<rparr>),
     threads = [Transfer_ordered c (O_acquire_b lock_a lock_b)],
     events = [Attempting (thread_name c) lock_a, Acquired (thread_name c) lock_a,
       Attempting (thread_name c) lock_b]\<rparr>"
proof -
  from assms(1-3) have "lock_a \<noteq> lock_b" by auto
  with assms show ?thesis by (auto simp: solo_unfold bank_defs)
qed

lemma ordered_acquires:
  assumes "numeric_id (account_id (h lock_a)) = Some i"
    and "numeric_id (account_id (h lock_b)) = Some j" and "i < j"
    and "from_account c = lock_a \<and> to_account c = lock_b \<or>
         from_account c = lock_b \<and> to_account c = lock_a"
    and "acc_lock (h lock_a) \<noteq> 0" and "acc_lock (h lock_b) \<noteq> 0"
  shows "solo 1 0 (calling (Transfer_ordered c O_order) h) =
    \<lparr>accounts = h, threads = [Transfer_ordered c (O_acquire_a lock_a lock_b)],
     events = [Attempting (thread_name c) lock_a]\<rparr>"
   "solo 2 0 (calling (Transfer_ordered c O_order) h) =
    \<lparr>accounts = h(lock_a := (h lock_a)\<lparr>acc_lock := acc_lock (h lock_a) - 1\<rparr>),
     threads = [Transfer_ordered c (O_acquire_b lock_a lock_b)],
     events = [Attempting (thread_name c) lock_a, Acquired (thread_name c) lock_a,
       Attempting (thread_name c) lock_b]\<rparr>"
   "solo 3 0 (calling (Transfer_ordered c O_order) h) =
    \<lparr>accounts = h(lock_a := (h lock_a)\<lparr>acc_lock := acc_lock (h lock_a) - 1\<rparr>,
                    lock_b := (h lock_b)\<lparr>acc_lock := acc_lock (h lock_b) - 1\<rparr>),
     threads = [Transfer_ordered c (O_check lock_a lock_b)],
     events = [Attempting (thread_name c) lock_a, Acquired (thread_name c) lock_a,
       Attempting (thread_name c) lock_b, Acquired (thread_name c) lock_b]\<rparr>"
proof -
  from assms(1-3) have ne: "lock_a \<noteq> lock_b" by auto
  show "solo 1 0 (calling (Transfer_ordered c O_order) h) =
    \<lparr>accounts = h, threads = [Transfer_ordered c (O_acquire_a lock_a lock_b)],
     events = [Attempting (thread_name c) lock_a]\<rparr>"
    using assms ne by (auto simp: bank_defs)
  show "solo 2 0 (calling (Transfer_ordered c O_order) h) =
    \<lparr>accounts = h(lock_a := (h lock_a)\<lparr>acc_lock := acc_lock (h lock_a) - 1\<rparr>),
     threads = [Transfer_ordered c (O_acquire_b lock_a lock_b)],
     events = [Attempting (thread_name c) lock_a, Acquired (thread_name c) lock_a,
       Attempting (thread_name c) lock_b]\<rparr>"
    using assms ne by (auto simp: solo_unfold bank_defs)
  show "solo 3 0 (calling (Transfer_ordered c O_order) h) =
    \<lparr>accounts = h(lock_a := (h lock_a)\<lparr>acc_lock := acc_lock (h lock_a) - 1\<rparr>,
                    lock_b := (h lock_b)\<lparr>acc_lock := acc_lock (h lock_b) - 1\<rparr>),
     threads = [Transfer_ordered c (O_check lock_a lock_b)],
     events = [Attempting (thread_name c) lock_a, Acquired (thread_name c) lock_a,
       Attempting (thread_name c) lock_b, Acquired (thread_name c) lock_b]\<rparr>"
    using assms ne by (auto simp: solo_unfold bank_defs)
qed


lemma ordered_releases:
  assumes "numeric_id (account_id (h lock_a)) = Some i"
    and "numeric_id (account_id (h lock_b)) = Some j" and "i < j"
    and "from_account c = lock_a \<and> to_account c = lock_b \<or>
         from_account c = lock_b \<and> to_account c = lock_a"
    and "acc_lock (h lock_a) \<noteq> 0" and "acc_lock (h lock_b) \<noteq> 0"
    and "m = (if amount c \<le> balance (h (from_account c)) then 6 else 4)"
    and "s0 = calling (Transfer_ordered c O_order) h"
  shows
    "threads (solo m 0 s0) = [Transfer_ordered c (O_release_b lock_a lock_b)] \<and>
     lock_counters [lock_a, lock_b] (solo m 0 s0) = [acc_lock (h lock_a) - 1, acc_lock (h lock_b) - 1]"
    "threads (solo (m + 1) 0 s0) = [Transfer_ordered c (O_release_a lock_a lock_b)] \<and>
     lock_counters [lock_a, lock_b] (solo (m + 1) 0 s0) = [acc_lock (h lock_a) - 1, acc_lock (h lock_b)]"
    "threads (solo (m + 2) 0 s0) = [Transfer_ordered c O_done] \<and>
     lock_counters [lock_a, lock_b] (solo (m + 2) 0 s0) = [acc_lock (h lock_a), acc_lock (h lock_b)]"
proof -
  from assms(1-3) have ne: "lock_a \<noteq> lock_b" by auto
  show "threads (solo m 0 s0) = [Transfer_ordered c (O_release_b lock_a lock_b)] \<and>
     lock_counters [lock_a, lock_b] (solo m 0 s0) = [acc_lock (h lock_a) - 1, acc_lock (h lock_b) - 1]"
    using assms ne by (auto simp: solo_unfold bank_defs lock_counters_def)
  show "threads (solo (m + 1) 0 s0) = [Transfer_ordered c (O_release_a lock_a lock_b)] \<and>
     lock_counters [lock_a, lock_b] (solo (m + 1) 0 s0) = [acc_lock (h lock_a) - 1, acc_lock (h lock_b)]"
    using assms ne by (auto simp: solo_unfold bank_defs lock_counters_def)
  show "threads (solo (m + 2) 0 s0) = [Transfer_ordered c O_done] \<and>
     lock_counters [lock_a, lock_b] (solo (m + 2) 0 s0) = [acc_lock (h lock_a), acc_lock (h lock_b)]"
    using assms ne by (auto simp: solo_unfold bank_defs lock_counters_def)
qed


lemma numeric_id_twins: "numeric_id ''Account07'' = Some 7" "numeric_id ''Account7'' = Some 7"
  by code_simp+

text \<open>
  Claim C3 as stated fails: two different accounts whose ids \<open>Account07\<close> and \<open>Account7\<close>
  have the same numeric part. The call from \<open>account1\<close> to \<open>account2\<close> acquires the lock of
  \<open>account2\<close> first, the call from \<open>account2\<close> to \<open>account1\<close> that of \<open>account1\<close>: after the
  first acquisition of each call, the counters of the two locks are 1, 0 and 0, 1.
\<close>

theorem ordered_lock_order_counterexample:
  "account1 \<noteq> account2 \<and>
   account_id (twin_accounts account1) \<noteq> account_id (twin_accounts account2) \<and>
   numeric_id (account_id (twin_accounts account1)) = Some 7 \<and>
   numeric_id (account_id (twin_accounts account2)) = Some 7 \<and>
   lock_counters [account1, account2]
     (solo 2 0 (calling (Transfer_ordered thread1_task O_order) twin_accounts)) = [1, 0] \<and>
   lock_counters [account1, account2]
     (solo 2 0 (calling (Transfer_ordered thread2_task O_order) twin_accounts)) = [0, 1]"
  by (simp add: twin_accounts_def Account_def numeric_id_twins thread1_task_def thread2_task_def
      solo_unfold bank_defs lock_counters_def)

text \<open>
  Claim C3, amended. For two accounts whose numeric ids are defined and different,
  \<open>lock_a\<close> the one with the smaller id and \<open>lock_b\<close> the one with the larger, and a call
  of \<open>transfer_ordered\<close> between them in either direction, executed on its own: if the
  lock of \<open>lock_a\<close> is taken the call waits for it holding nothing; if only that of
  \<open>lock_b\<close> is taken it waits for it holding that of \<open>lock_a\<close>; if both are free it
  acquires the lock of \<open>lock_a\<close> first and that of \<open>lock_b\<close> second, applies the guarded
  mutation to the original source and destination, then releases the lock of \<open>lock_b\<close>
  first and that of \<open>lock_a\<close> last.
\<close>

theorem ordered_lock_order:
  assumes "numeric_id (account_id (h lock_a)) = Some i"
    and "numeric_id (account_id (h lock_b)) = Some j" and "i < j"
    and "from_account c = lock_a \<and> to_account c = lock_b \<or>
         from_account c = lock_b \<and> to_account c = lock_a"
    and "s0 = calling (Transfer_ordered c O_order) h"
    and "m = (if amount c \<le> balance (h (from_account c)) then 6 else 4)"
  shows
    "(acc_lock (h lock_a) = 0 \<longrightarrow>
        threads (solo 8 0 s0) = [Transfer_ordered c (O_acquire_a lock_a lock_b)] \<and>
        accounts (solo 8 0 s0) = h) \<and>
     (acc_lock (h lock_a) \<noteq> 0 \<and> acc_lock (h lock_b) = 0 \<longrightarrow>
        threads (solo 8 0 s0) = [Transfer_ordered c (O_acquire_b lock_a lock_b)] \<and>
        accounts (solo 8 0 s0) = h(lock_a := (h lock_a)\<lparr>acc_lock := acc_lock (h lock_a) - 1\<rparr>)) \<and>
     (acc_lock (h lock_a) \<noteq> 0 \<and> acc_lock (h lock_b) \<noteq> 0 \<longrightarrow>
        threads (solo 1 0 s0) = [Transfer_ordered c (O_acquire_a lock_a lock_b)] \<and>
        lock_counters [lock_a, lock_b] (solo 1 0 s0) = [acc_lock (h lock_a), acc_lock (h lock_b)] \<and>
        threads (solo 2 0 s0) = [Transfer_ordered c (O_acquire_b lock_a lock_b)] \<and>
        lock_counters [lock_a, lock_b] (solo 2 0 s0) = [acc_lock (h lock_a) - 1, acc_lock (h lock_b)] \<and>
        threads (solo 3 0 s0) = [Transfer_ordered c (O_check lock_a lock_b)] \<and>
        lock_counters [lock_a, lock_b] (solo 3 0 s0) =
          [acc_lock (h lock_a) - 1, acc_lock (h lock_b) - 1] \<and>
        threads (solo m 0 s0) = [Transfer_ordered c (O_release_b lock_a lock_b)] \<and>
        lock_counters [lock_a, lock_b] (solo m 0 s0) =
          [acc_lock (h lock_a) - 1, acc_lock (h lock_b) - 1] \<and>
        threads (solo (m + 1) 0 s0) = [Transfer_ordered c (O_release_a lock_a lock_b)] \<and>
        lock_counters [lock_a, lock_b] (solo (m + 1) 0 s0) =
          [acc_lock (h lock_a) - 1, acc_lock (h lock_b)] \<and>
        threads (solo (m + 2) 0 s0) = [Transfer_ordered c O_done] \<and>
        lock_counters [lock_a, lock_b] (solo (m + 2) 0 s0) =
          [acc_lock (h lock_a), acc_lock (h lock_b)] \<and>
        settled c h (solo 8 0 s0) \<and>
        events (solo 8 0 s0) =
          [Attempting (thread_name c) lock_a, Acquired (thread_name c) lock_a,
           Attempting (thread_name c) lock_b, Acquired (thread_name c) lock_b,
           if amount c \<le> balance (h (from_account c))
           then Transferred (thread_name c) (amount c) (from_account c) (to_account c)
           else Insufficient (thread_name c) (from_account c),
           Released (thread_name c) lock_b, Released (thread_name c) lock_a])"
proof (intro conjI impI)
  assume "acc_lock (h lock_a) = 0"
  note r = ordered_blocked_first [OF assms(1-4) this]
  show "threads (solo 8 0 s0) = [Transfer_ordered c (O_acquire_a lock_a lock_b)]"
    "accounts (solo 8 0 s0) = h"
    unfolding assms(5) r by simp_all
next
  assume "acc_lock (h lock_a) \<noteq> 0 \<and> acc_lock (h lock_b) = 0"
  then have a: "acc_lock (h lock_a) \<noteq> 0" "acc_lock (h lock_b) = 0" by simp_all
  note r = ordered_blocked_second [OF assms(1-4) a]
  show "threads (solo 8 0 s0) = [Transfer_ordered c (O_acquire_b lock_a lock_b)]"
    "accounts (solo 8 0 s0) = h(lock_a := (h lock_a)\<lparr>acc_lock := acc_lock (h lock_a) - 1\<rparr>)"
    unfolding assms(5) r by simp_all
next
  assume "acc_lock (h lock_a) \<noteq> 0 \<and> acc_lock (h lock_b) \<noteq> 0"
  then have a: "acc_lock (h lock_a) \<noteq> 0" "acc_lock (h lock_b) \<noteq> 0" by simp_all
  from assms(1-3) have ne: "lock_a \<noteq> lock_b" by auto
  note q = ordered_acquires [OF assms(1-4) a]
  note rel = ordered_releases [OF assms(1-4) a assms(6,5)]
  show "threads (solo 1 0 s0) = [Transfer_ordered c (O_acquire_a lock_a lock_b)]"
    "lock_counters [lock_a, lock_b] (solo 1 0 s0) = [acc_lock (h lock_a), acc_lock (h lock_b)]"
    unfolding assms(5) q by (simp_all add: lock_counters_def)
  show "threads (solo 2 0 s0) = [Transfer_ordered c (O_acquire_b lock_a lock_b)]"
    "lock_counters [lock_a, lock_b] (solo 2 0 s0) = [acc_lock (h lock_a) - 1, acc_lock (h lock_b)]"
    unfolding assms(5) q using ne by (simp_all add: lock_counters_def)
  show "threads (solo 3 0 s0) = [Transfer_ordered c (O_check lock_a lock_b)]"
    "lock_counters [lock_a, lock_b] (solo 3 0 s0) =
          [acc_lock (h lock_a) - 1, acc_lock (h lock_b) - 1]"
    unfolding assms(5) q using ne by (simp_all add: lock_counters_def)
  from rel show "threads (solo m 0 s0) = [Transfer_ordered c (O_release_b lock_a lock_b)]"
    "lock_counters [lock_a, lock_b] (solo m 0 s0) =
          [acc_lock (h lock_a) - 1, acc_lock (h lock_b) - 1]"
    "threads (solo (m + 1) 0 s0) = [Transfer_ordered c (O_release_a lock_a lock_b)]"
    "lock_counters [lock_a, lock_b] (solo (m + 1) 0 s0) =
          [acc_lock (h lock_a) - 1, acc_lock (h lock_b)]"
    "threads (solo (m + 2) 0 s0) = [Transfer_ordered c O_done]"
    "lock_counters [lock_a, lock_b] (solo (m + 2) 0 s0) =
          [acc_lock (h lock_a), acc_lock (h lock_b)]"
    by simp_all
  have fin: "settled c h (solo 8 0 s0) \<and>
        events (solo 8 0 s0) =
          [Attempting (thread_name c) lock_a, Acquired (thread_name c) lock_a,
           Attempting (thread_name c) lock_b, Acquired (thread_name c) lock_b,
           if amount c \<le> balance (h (from_account c))
           then Transferred (thread_name c) (amount c) (from_account c) (to_account c)
           else Insufficient (thread_name c) (from_account c),
           Released (thread_name c) lock_b, Released (thread_name c) lock_a]"
    using assms(4)
  proof
    assume d: "from_account c = lock_a \<and> to_account c = lock_b"
    with assms(1,2) a ne
    have p: "numeric_id (account_id (h (from_account c))) = Some i"
      "numeric_id (account_id (h (to_account c))) = Some j"
      "from_account c \<noteq> to_account c"
      "acc_lock (h (from_account c)) \<noteq> 0" "acc_lock (h (to_account c)) \<noteq> 0"
      by simp_all
    show ?thesis
      unfolding assms(5) ordered_alone [OF p] using d assms(3) ne
      by (simp add: settled_def Let_def)
  next
    assume d: "from_account c = lock_b \<and> to_account c = lock_a"
    with assms(1,2) a ne
    have p: "numeric_id (account_id (h (from_account c))) = Some j"
      "numeric_id (account_id (h (to_account c))) = Some i"
      "from_account c \<noteq> to_account c"
      "acc_lock (h (from_account c)) \<noteq> 0" "acc_lock (h (to_account c)) \<noteq> 0"
      by simp_all
    show ?thesis
      unfolding assms(5) ordered_alone [OF p] using d assms(3) ne
      by (simp add: settled_def Let_def)
  qed
  from fin show "settled c h (solo 8 0 s0)" by simp
  from fin show "events (solo 8 0 s0) =
          [Attempting (thread_name c) lock_a, Acquired (thread_name c) lock_a,
           Attempting (thread_name c) lock_b, Acquired (thread_name c) lock_b,
           if amount c \<le> balance (h (from_account c))
           then Transferred (thread_name c) (amount c) (from_account c) (to_account c)
           else Insufficient (thread_name c) (from_account c),
           Released (thread_name c) lock_b, Released (thread_name c) lock_a]" by simp
qed

theorem ordered_lock_order_witness:
  "numeric_id (account_id (module_accounts account1)) = Some 1 \<and>
   numeric_id (account_id (module_accounts account2)) = Some 2 \<and>
   from_account thread2_task = account2 \<and> to_account thread2_task = account1 \<and>
   lock_counters [account1, account2]
     (solo 2 0 (calling (Transfer_ordered thread2_task O_order) module_accounts)) = [0, 1] \<and>
   lock_counters [account1, account2]
     (solo 3 0 (calling (Transfer_ordered thread2_task O_order) module_accounts)) = [0, 0] \<and>
   lock_counters [account1, account2]
     (solo 7 0 (calling (Transfer_ordered thread2_task O_order) module_accounts)) = [0, 1] \<and>
   events (solo 8 0 (calling (Transfer_ordered thread2_task O_order) module_accounts)) =
     [Attempting ''Thread-2'' account1, Acquired ''Thread-2'' account1,
      Attempting ''Thread-2'' account2, Acquired ''Thread-2'' account2,
      Transferred ''Thread-2'' 50 account2 account1,
      Released ''Thread-2'' account2, Released ''Thread-2'' account1]"
  using ordered_lock_order [of module_accounts account1 1 account2 2 thread2_task
      "calling (Transfer_ordered thread2_task O_order) module_accounts" 6]
  by (simp add: module_simps)

lemma transfer_locks:
  assumes "transfer c pc s = Some (pc', s')"
  shows "acc_lock (accounts s' r) + holds r (Transfer c pc') =
      acc_lock (accounts s r) + holds r (Transfer c pc) \<and>
    account_id (accounts s' r) = account_id (accounts s r) \<and> threads s' = threads s"
  using assms
  by (cases pc)
    (auto simp: transfer_def Let_def acquire_def release_def add_balance_def say_def locked_def
      split: if_splits)

lemma transfer_ordered_locks:
  assumes "transfer_ordered c pc s = Some (pc', s')"
  shows "acc_lock (accounts s' r) + holds r (Transfer_ordered c pc') =
      acc_lock (accounts s r) + holds r (Transfer_ordered c pc) \<and>
    account_id (accounts s' r) = account_id (accounts s r) \<and> threads s' = threads s"
  using assms
  by (cases pc)
    (auto simp: transfer_ordered_def Let_def acquire_def release_def add_balance_def say_def
      locked_def split: if_splits option.splits)

lemma bank_step_locks:
  assumes "locks_ok s" and "bank_step i s = Some s'"
  shows "locks_ok s'"
proof -
  from assms(2) have i: "i < length (threads s)"
    by (simp add: bank_step_def split: if_splits)
  show ?thesis
  proof (cases "threads s ! i")
    case (Transfer c pc)
    with assms(2) i obtain pc' s1 where st: "transfer c pc s = Some (pc', s1)"
      and s': "s' = s1\<lparr>threads := (threads s)[i := Transfer c pc']\<rparr>"
      by (auto simp: bank_step_def split: option.splits)
    show ?thesis
      unfolding locks_ok_def
    proof (intro allI)
      fix r
      from transfer_locks [OF st, of r] sum_list_map_update [OF i, of "holds r" "Transfer c pc'"]
        assms(1) [unfolded locks_ok_def, rule_format, of r] Transfer
      show "acc_lock (accounts s' r) + sum_list (map (holds r) (threads s')) = 1 \<and>
          account_id (accounts s' r) = account_id (module_accounts r)"
        by (simp add: s')
    qed
  next
    case (Transfer_ordered c pc)
    with assms(2) i obtain pc' s1 where st: "transfer_ordered c pc s = Some (pc', s1)"
      and s': "s' = s1\<lparr>threads := (threads s)[i := Transfer_ordered c pc']\<rparr>"
      by (auto simp: bank_step_def split: option.splits)
    show ?thesis
      unfolding locks_ok_def
    proof (intro allI)
      fix r
      from transfer_ordered_locks [OF st, of r]
        sum_list_map_update [OF i, of "holds r" "Transfer_ordered c pc'"]
        assms(1) [unfolded locks_ok_def, rule_format, of r] Transfer_ordered
      show "acc_lock (accounts s' r) + sum_list (map (holds r) (threads s')) = 1 \<and>
          account_id (accounts s' r) = account_id (module_accounts r)"
        by (simp add: s')
    qed
  qed
qed

lemma bank_reach_locks: "s \<in> bank_reach s0 \<Longrightarrow> locks_ok s0 \<Longrightarrow> locks_ok s"
  by (induction rule: bank_reach.induct) (auto intro: bank_step_locks)

lemma locks_ok_main: "locks_ok (main module_state)"
  by (simp add: locks_ok_def main_def module_state_def module_accounts_def Account_def
      split: ref.splits)

lemma bank_run_reach: "bank_run sched s = Some s' \<Longrightarrow> s' \<in> bank_reach s"
proof (induction sched arbitrary: s' rule: rev_induct)
  case Nil
  then show ?case by (simp add: bank_reach.bank_start)
next
  case (snoc i sched)
  have run_append: "\<And>xs ys t. bank_run (xs @ ys) t =
      (case bank_run xs t of None \<Rightarrow> None | Some u \<Rightarrow> bank_run ys u)"
    subgoal for xs ys t by (induction xs arbitrary: t) (auto split: option.splits)
    done
  from snoc.prems obtain u where u: "bank_run sched s = Some u" "bank_step i u = Some s'"
    by (auto simp: run_append split: option.splits)
  from snoc.IH [OF u(1)] u(2) show ?case by (rule bank_reach.bank_next)
qed

lemma deadlocked_threads:
  "threads deadlocked = [Transfer thread1_task U_acquire_to, Transfer thread2_task U_acquire_to]"
  by (simp add: deadlocked_def main_def module_state_def module_simps bank_defs)

lemma deadlocked_run: "bank_run [0, 0, 1, 1] (main module_state) = Some deadlocked"
  by (simp add: deadlocked_def main_def module_state_def module_simps bank_defs)

lemma deadlocked_reach: "deadlocked \<in> bank_reach (main module_state)"
  using deadlocked_run by (rule bank_run_reach)

lemma both_locks_taken:
  assumes "s \<in> bank_reach (main module_state)"
    and "threads s = [Transfer thread1_task U_acquire_to, Transfer thread2_task U_acquire_to]"
  shows "acc_lock (accounts s r) = 0"
proof -
  from bank_reach_locks [OF assms(1) locks_ok_main]
  have "acc_lock (accounts s r) + sum_list (map (holds r) (threads s)) = 1"
    by (simp add: locks_ok_def)
  then show ?thesis
    by (cases r) (simp_all add: assms(2) thread1_task_def thread2_task_def)
qed

lemma stuck_reach: "\<forall>i. bank_step i s = None \<Longrightarrow> bank_reach s = {s}"
proof -
  assume stuck: "\<forall>i. bank_step i s = None"
  have "x = s" if "x \<in> bank_reach s" for x
    using that by (induction rule: bank_reach.induct) (simp_all add: stuck)
  then show ?thesis by (auto intro: bank_reach.bank_start)
qed

text \<open>
  Claim C7. In \<open>main\<close>, when each of the two threads running \<open>transfer\<close> in opposite
  directions has acquired its first lock and neither has acquired its second, no thread
  has a step, no other state is reachable (neither call ever completes), both threads
  stay alive, none has raised, and the driver's check after its joins reports the
  deadlock.
\<close>

theorem unordered_deadlock:
  assumes "s \<in> bank_reach (main module_state)"
    and "threads s = [Transfer thread1_task U_acquire_to, Transfer thread2_task U_acquire_to]"
  shows "(\<forall>i. bank_step i s = None) \<and> bank_reach s = {s} \<and>
     is_alive (threads s ! 0) \<and> is_alive (threads s ! 1) \<and> report 0 1 s = Deadlock_detected"
proof -
  note l = both_locks_taken [OF assms]
  have stuck: "\<forall>i. bank_step i s = None"
  proof
    fix i :: nat
    consider "i = 0" | "i = 1" | "2 \<le> i" by linarith
    then show "bank_step i s = None"
      by cases (simp_all add: bank_step_def assms(2) transfer_def locked_def l)
  qed
  with stuck_reach [OF stuck] show ?thesis
    by (simp add: assms(2) report_def)
qed

theorem unordered_deadlock_witness:
  "deadlocked \<in> bank_reach (main module_state) \<and>
   threads deadlocked = [Transfer thread1_task U_acquire_to, Transfer thread2_task U_acquire_to] \<and>
   bank_step 0 deadlocked = None \<and> bank_step 1 deadlocked = None \<and>
   report 0 1 deadlocked = Deadlock_detected"
  using unordered_deadlock [OF deadlocked_reach deadlocked_threads] deadlocked_reach
    deadlocked_threads by simp

subsection \<open>The ordered demonstration after the deadlock\<close>

lemma parked_start:
  assumes "d \<in> bank_reach (main module_state)"
    and "threads d = [Transfer thread1_task U_acquire_to, Transfer thread2_task U_acquire_to]"
  shows "parked (main_ordered d)"
proof -
  from bank_reach_locks [OF assms(1) locks_ok_main]
  have "account_id (accounts d r) = account_id (module_accounts r)" for r
    by (simp add: locks_ok_def)
  with both_locks_taken [OF assms] show ?thesis
    by (simp add: parked_def main_ordered_def assms(2))
qed

lemma parked_step:
  assumes "parked s" and "bank_step i s = Some s'"
  shows "parked s'"
proof -
  from assms(1) obtain p q where
    a: "\<And>r. acc_lock (accounts s r) = 0" "\<And>r. balance (accounts s r) = 1000"
      "\<And>r. account_id (accounts s r) = account_id (module_accounts r)"
    and pq: "p \<in> {O_order, O_acquire_a account1 account2}"
      "q \<in> {O_order, O_acquire_a account1 account2}"
    and t: "threads s =
          [Transfer thread1_task U_acquire_to, Transfer thread2_task U_acquire_to,
           Transfer_ordered thread1_task p, Transfer_ordered thread2_task q]"
    unfolding parked_def by blast
  from assms(2) t have "i < 4" by (simp add: bank_step_def split: if_splits)
  then consider "i = 0" | "i = 1" | "i = 2" | "i = 3" by linarith
  then show ?thesis
  proof cases
    case 1
    with assms(2) t a show ?thesis by (simp add: bank_step_def transfer_def locked_def)
  next
    case 2
    with assms(2) t a show ?thesis by (simp add: bank_step_def transfer_def locked_def)
  next
    case 3
    with assms(2) t a pq show ?thesis
      by (auto simp: bank_step_def transfer_ordered_def locked_def say_def parked_def module_simps)
  next
    case 4
    with assms(2) t a pq show ?thesis
      by (auto simp: bank_step_def transfer_ordered_def locked_def say_def parked_def module_simps)
  qed
qed

lemma parked_reach: "s \<in> bank_reach s0 \<Longrightarrow> parked s0 \<Longrightarrow> parked s"
  by (induction rule: bank_reach.induct) (auto intro: parked_step)

text \<open>
  Claim C2 (what the code does instead). \<open>main_ordered\<close> sets the balances back to 1000
  and leaves the locks as \<open>main\<close> left them. When \<open>main\<close> has ended in its deadlock, its
  two threads still hold both locks: in every state that the run of \<open>main_ordered\<close>
  reaches from there both balances are still 1000, neither of its two threads has
  finished, and its check after the joins reports a deadlock.
\<close>

theorem ordered_demo_after_deadlock:
  assumes "d \<in> bank_reach (main module_state)"
    and "threads d = [Transfer thread1_task U_acquire_to, Transfer thread2_task U_acquire_to]"
    and "s \<in> bank_reach (main_ordered d)"
  shows "balance (accounts s account1) = 1000 \<and> balance (accounts s account2) = 1000 \<and>
     is_alive (threads s ! 2) \<and> is_alive (threads s ! 3) \<and> report 2 3 s = Deadlock_detected"
  using parked_reach [OF assms(3) parked_start [OF assms(1,2)]]
  by (auto simp: parked_def report_def)

theorem ordered_demo_after_deadlock_witness:
  "deadlocked \<in> bank_reach (main module_state) \<and>
   main_ordered deadlocked \<in> bank_reach (main_ordered deadlocked) \<and>
   balance (accounts (main_ordered deadlocked) account1) = 1000 \<and>
   report 2 3 (main_ordered deadlocked) = Deadlock_detected"
  using ordered_demo_after_deadlock [OF deadlocked_reach deadlocked_threads bank_reach.bank_start]
    deadlocked_reach bank_reach.bank_start [of "main_ordered deadlocked"] by simp

subsection \<open>The ordered demonstration on free locks\<close>

lemma fresh_start: "fresh_inv (main_ordered module_state)"
  by (simp add: fresh_inv_def locks_ok_def main_ordered_def module_state_def module_accounts_def
      Account_def split: ref.splits)

text \<open>
  On the accounts as the module creates them (both locks free), every run of
  \<open>main_ordered\<close> ends, after at most 16 steps, and where no thread has a step left both
  calls have returned and the balances are 950 and 1050.
\<close>

lemma ordered_task_step:
  assumes "transfer_ordered c pc s = Some (pc', s1)" and "wf_pc pc"
    and "\<And>r. account_id (accounts s r) = account_id (module_accounts r)"
    and "c = thread1_task \<or> c = thread2_task"
    and "\<not> debited pc \<Longrightarrow> amount c \<le> balance (accounts s (from_account c))"
  shows "wf_pc pc' \<and>
    balance (accounts s1 (from_account c)) + owes pc' (amount c) =
      balance (accounts s (from_account c)) + owes pc (amount c) \<and>
    balance (accounts s1 (to_account c)) - gave pc' (amount c) =
      balance (accounts s (to_account c)) - gave pc (amount c)"
  using assms
  by (cases pc)
    (auto simp: transfer_ordered_def Let_def locked_def say_def acquire_def release_def
      add_balance_def module_simps owes_def gave_def split: if_splits)

lemma fresh_step:
  assumes "fresh_inv s" and "bank_step i s = Some s'"
  shows "fresh_inv s'"
proof -
  from assms have l: "locks_ok s'" by (auto simp: fresh_inv_def intro: bank_step_locks)
  from assms(1) obtain p q where
    t: "threads s = [Transfer_ordered thread1_task p, Transfer_ordered thread2_task q]"
    and w: "wf_pc p" "wf_pc q"
    and b: "balance (accounts s account1) = 1000 - owes p 100 + gave q 50"
      "balance (accounts s account2) = 1000 + gave p 100 - owes q 50"
    and ids: "\<And>r. account_id (accounts s r) = account_id (module_accounts r)"
    unfolding fresh_inv_def locks_ok_def owes_def gave_def by blast
  have nonneg: "0 \<le> gave p 100" "0 \<le> gave q 50"
    by (simp_all add: gave_def)
  from assms(2) t have "i < 2" by (simp add: bank_step_def split: if_splits)
  then consider "i = 0" | "i = 1" by linarith
  then have "\<exists>p q. threads s' = [Transfer_ordered thread1_task p, Transfer_ordered thread2_task q] \<and>
        wf_pc p \<and> wf_pc q \<and>
        balance (accounts s' account1) = 1000 - owes p 100 + gave q 50 \<and>
        balance (accounts s' account2) = 1000 + gave p 100 - owes q 50"
  proof cases
    case 1
    with assms(2) t obtain p' s1 where st: "transfer_ordered thread1_task p s = Some (p', s1)"
      and s': "s' = s1\<lparr>threads := [Transfer_ordered thread1_task p', Transfer_ordered thread2_task q]\<rparr>"
      by (auto simp: bank_step_def split: option.splits)
    have "\<not> debited p \<Longrightarrow> amount thread1_task \<le> balance (accounts s (from_account thread1_task))"
      using b nonneg by (simp add: thread1_task_def owes_def)
    from ordered_task_step [OF st w(1) ids _ this] b w(2) show ?thesis
      by (simp add: s' thread1_task_def)
  next
    case 2
    with assms(2) t obtain q' s1 where st: "transfer_ordered thread2_task q s = Some (q', s1)"
      and s': "s' = s1\<lparr>threads := [Transfer_ordered thread1_task p, Transfer_ordered thread2_task q']\<rparr>"
      by (auto simp: bank_step_def split: option.splits)
    have "\<not> debited q \<Longrightarrow> amount thread2_task \<le> balance (accounts s (from_account thread2_task))"
      using b nonneg by (simp add: thread2_task_def owes_def)
    from ordered_task_step [OF st w(2) ids _ this] b w(1) show ?thesis
      by (simp add: s' thread2_task_def)
  qed
  with l show ?thesis by (simp add: fresh_inv_def owes_def gave_def)
qed

lemma fresh_reach: "s \<in> bank_reach (main_ordered module_state) \<Longrightarrow> fresh_inv s"
  by (induction rule: bank_reach.induct) (auto intro: fresh_start fresh_step)

lemma ordered_stuck:
  assumes "transfer_ordered c pc s = None" and "wf_pc pc"
  shows "pc = O_done \<or>
    (pc = O_acquire_a account1 account2 \<and> acc_lock (accounts s account1) = 0) \<or>
    (pc = O_acquire_b account1 account2 \<and> acc_lock (accounts s account2) = 0)"
  using assms
  by (cases pc)
    (auto simp: transfer_ordered_def Let_def locked_def split: if_splits option.splits)

lemma ordered_demo_fresh:
  assumes "s \<in> bank_reach (main_ordered module_state)" and "\<forall>i. bank_step i s = None"
  shows "threads s = [Transfer_ordered thread1_task O_done, Transfer_ordered thread2_task O_done] \<and>
    balance (accounts s account1) = 950 \<and> balance (accounts s account2) = 1050 \<and>
    report 0 1 s = Final_state 950 1050"
proof -
  from fresh_reach [OF assms(1)] obtain p q where
    t: "threads s = [Transfer_ordered thread1_task p, Transfer_ordered thread2_task q]"
    and w: "wf_pc p" "wf_pc q"
    and b: "balance (accounts s account1) =
          1000 - (if debited p then 100 else 0) + (if credited q then 50 else 0)"
      "balance (accounts s account2) =
          1000 + (if credited p then 100 else 0) - (if debited q then 50 else 0)"
    and l: "\<And>r. acc_lock (accounts s r) + (holds r (Transfer_ordered thread1_task p) +
          holds r (Transfer_ordered thread2_task q)) = 1"
    unfolding fresh_inv_def locks_ok_def by auto
  from assms(2) [rule_format, of 0] t have "transfer_ordered thread1_task p s = None"
    by (auto simp: bank_step_def split: option.splits prod.splits)
  note sp = ordered_stuck [OF this w(1)]
  from assms(2) [rule_format, of 1] t have "transfer_ordered thread2_task q s = None"
    by (auto simp: bank_step_def split: option.splits prod.splits)
  note sq = ordered_stuck [OF this w(2)]
  from sp sq l [of account1] l [of account2] have "p = O_done \<and> q = O_done"
    by auto
  with t b show ?thesis by (simp add: report_def)
qed

lemma ordered_demo_fresh_terminates:
  assumes "s \<in> bank_reach (main_ordered module_state)" and "bank_step i s = Some s'"
  shows "steps_total s' < steps_total s \<and> steps_total s \<le> 16"
proof -
  from fresh_reach [OF assms(1)] obtain p q where
    t: "threads s = [Transfer_ordered thread1_task p, Transfer_ordered thread2_task q]"
    unfolding fresh_inv_def by auto
  from assms(2) t have "i < 2" by (simp add: bank_step_def split: if_splits)
  then have ne: "from_account (call_of (threads s ! i)) \<noteq> to_account (call_of (threads s ! i))"
    using t by (auto simp: less_2_cases_iff thread1_task_def thread2_task_def)
  from assms(2) have i: "i < length (threads s)"
    by (simp add: bank_step_def split: if_splits)
  from assms(2) have "threads s' = (threads s)[i := threads s' ! i]"
    by (auto simp: bank_step_def split: if_splits thread.splits option.splits)
  with sum_list_map_update [OF i, of steps_left "threads s' ! i"]
  have "steps_total s' + steps_left (threads s ! i) = steps_total s + steps_left (threads s' ! i)"
    by (simp add: steps_total_def)
  with bank_step_ledger [OF assms(2) ne] have "steps_total s' < steps_total s" by simp
  moreover have "steps_left (Transfer_ordered c pc) \<le> 8" for c pc
    by (cases pc) simp_all
  then have "steps_total s \<le> 16"
    using t add_mono [of "steps_left (Transfer_ordered thread1_task p)" 8
        "steps_left (Transfer_ordered thread2_task q)" 8]
    by (simp add: steps_total_def)
  ultimately show ?thesis by simp
qed

end
